theory Spec2Isabelle
  imports Main
begin

section \<open>Objects, errors and the store\<close>

text \<open>
  The module \<^verbatim>\<open>quandry.py\<close> has two classes, \<^verbatim>\<open>Query\<close> and \<^verbatim>\<open>Value\<close>, the decorator
  \<^verbatim>\<open>queryable\<close> and the two transforms \<^verbatim>\<open>filter\<close> and \<^verbatim>\<open>exclude\<close>.  Query nodes, their
  cache lists and the generator objects that iteration creates are mutable and shared, so
  they live in an explicit store and are named by addresses.  An exception is a value
  \<open>Inl e\<close> of a sum type.
\<close>

type_synonym addr = nat

datatype error = AttributeError | NotImplementedError | TypeError | NameError

text \<open>
  An argument of \<^verbatim>\<open>filter\<close> or \<^verbatim>\<open>exclude\<close> is either a plain value of the element type or
  a callable.  A callable takes an element and returns a truth value or raises.
\<close>

datatype 'a arg = Lit 'a | Fn "'a \<Rightarrow> error + bool"

fun callable :: "'a arg \<Rightarrow> bool" where
  "callable (Lit v) = False"
| "callable (Fn p) = True"

text \<open>
  What the attribute \<^verbatim>\<open>_result\<close> of a node can hold: \<^verbatim>\<open>None\<close>, the sequence the node was
  bound to, a generator object, or another \<^verbatim>\<open>Query\<close> node (a transform called with no
  argument returns the node it was given).
\<close>

datatype 'a resval = RNone | RSeq "'a list" | RGen addr | RQuery addr

datatype transform = Filter | Exclude

fun transform_name :: "transform \<Rightarrow> string" where
  "transform_name Filter = ''filter''"
| "transform_name Exclude = ''exclude''"

record 'a query =
  own_result :: "'a resval"
  cached_result :: addr
  parent :: "addr option"
  actions :: "string \<rightharpoonup> transform"

text \<open>
  An iterator as a \<^verbatim>\<open>for\<close> loop holds it: a list iterator over the bound sequence (the
  sequence and the next index), or a generator object, which is its own iterator.
\<close>

datatype 'a iter = ListIter "'a list" nat | GenIter addr

text \<open>
  The condition of a generator expression: \<^verbatim>\<open>value(r)\<close> in \<^verbatim>\<open>filter\<close> and in the keyword
  loop of \<^verbatim>\<open>exclude\<close>, \<^verbatim>\<open>r != value\<close> in the positional loop of \<^verbatim>\<open>exclude\<close>.
\<close>

datatype gkind = Call | NotEqual

text \<open>
  Generator objects.  The body of \<^verbatim>\<open>Query.__iter__\<close> has not started
  (\<open>QueryIterFresh\<close>), is inside its first loop over the cache list (\<open>QueryIterReplay\<close>,
  with the list object and the next index), or inside its second loop over
  \<^verbatim>\<open>self.result\<close> (\<open>QueryIterWalk\<close>).  A generator expression holds its condition, the cell
  of the variable \<^verbatim>\<open>value\<close> it closes over, and the iterator of its source, which Python
  evaluates when the expression is created.  A generator that returned or raised is
  \<open>Finished\<close>.
\<close>

datatype 'a gen =
    QueryIterFresh addr
  | QueryIterReplay addr nat
  | QueryIterWalk addr "'a iter"
  | GenExp gkind addr "'a iter"
  | Finished

record 'a heap =
  nodes :: "addr \<Rightarrow> 'a query"
  lists :: "addr \<Rightarrow> 'a list"
  gens :: "addr \<Rightarrow> 'a gen"
  cells :: "addr \<Rightarrow> 'a arg option"
  next_addr :: addr

definition empty_heap :: "'a heap" where
  "empty_heap =
     \<lparr>nodes = (\<lambda>_. \<lparr>own_result = RNone, cached_result = 0, parent = None, actions = Map.empty\<rparr>),
      lists = (\<lambda>_. []), gens = (\<lambda>_. Finished), cells = (\<lambda>_. None), next_addr = 0\<rparr>"

definition new_list :: "'a heap \<Rightarrow> addr \<times> 'a heap" where
  "new_list h =
     (next_addr h, h\<lparr>lists := (lists h)(next_addr h := []), next_addr := Suc (next_addr h)\<rparr>)"

definition new_gen :: "'a gen \<Rightarrow> 'a heap \<Rightarrow> addr \<times> 'a heap" where
  "new_gen g h =
     (next_addr h, h\<lparr>gens := (gens h)(next_addr h := g), next_addr := Suc (next_addr h)\<rparr>)"

definition new_cell :: "'a heap \<Rightarrow> addr \<times> 'a heap" where
  "new_cell h =
     (next_addr h, h\<lparr>cells := (cells h)(next_addr h := None), next_addr := Suc (next_addr h)\<rparr>)"

definition set_gen :: "addr \<Rightarrow> 'a gen \<Rightarrow> 'a heap \<Rightarrow> 'a heap" where
  "set_gen a g h = h\<lparr>gens := (gens h)(a := g)\<rparr>"

definition set_cell :: "addr \<Rightarrow> 'a arg \<Rightarrow> 'a heap \<Rightarrow> 'a heap" where
  "set_cell c v h = h\<lparr>cells := (cells h)(c := Some v)\<rparr>"

definition cache :: "'a heap \<Rightarrow> addr \<Rightarrow> 'a list" where
  "cache h q = lists h (cached_result (nodes h q))"

section \<open>The class Query\<close>

text \<open>
  \<^verbatim>\<open>__init__\<close>: the dictionary \<^verbatim>\<open>_actions\<close> maps the name of each given transform to it;
  \<^verbatim>\<open>_result\<close> is \<^verbatim>\<open>None\<close> and \<^verbatim>\<open>_cached_result\<close> a new empty list.
\<close>

definition actions_of :: "transform list \<Rightarrow> (string \<rightharpoonup> transform)" where
  "actions_of args = map_of (rev (map (\<lambda>f. (transform_name f, f)) args))"

definition Query_new :: "(string \<rightharpoonup> transform) \<Rightarrow> addr option \<Rightarrow> 'a heap \<Rightarrow> addr \<times> 'a heap" where
  "Query_new acts p h =
     (let (c, h1) = new_list h;
          q = next_addr h1
      in (q, h1\<lparr>nodes := (nodes h1)(q := \<lparr>own_result = RNone, cached_result = c,
                                             parent = p, actions = acts\<rparr>),
                 next_addr := Suc q\<rparr>))"

definition Query_init :: "transform list \<Rightarrow> 'a heap \<Rightarrow> addr \<times> 'a heap" where
  "Query_init args h = Query_new (actions_of args) None h"

text \<open>
  The property \<^verbatim>\<open>result\<close>: the node's own \<^verbatim>\<open>_result\<close>, or, when that is \<^verbatim>\<open>None\<close> and the
  node has a parent, the parent's \<^verbatim>\<open>result\<close>.  The recursion follows parent links in the
  store, so it takes fuel; \<open>None\<close> means the fuel ran out.
\<close>

primrec result :: "nat \<Rightarrow> 'a heap \<Rightarrow> addr \<Rightarrow> 'a resval option" where
  "result 0 h q = None"
| "result (Suc n) h q =
     (if own_result (nodes h q) = RNone \<and> parent (nodes h q) \<noteq> None
      then result n h (the (parent (nodes h q)))
      else Some (own_result (nodes h q)))"

text \<open>The setter of \<^verbatim>\<open>result\<close>.\<close>

definition set_result :: "addr \<Rightarrow> 'a resval \<Rightarrow> 'a heap \<Rightarrow> 'a heap" where
  "set_result q v h = h\<lparr>nodes := (nodes h)(q := (nodes h q)\<lparr>own_result := v\<rparr>)\<rparr>"

text \<open>\<^verbatim>\<open>__call__\<close>: binds the node to \<open>obj\<close>, gives it a new empty cache list, returns the node.\<close>

definition Query_call :: "addr \<Rightarrow> 'a list \<Rightarrow> 'a heap \<Rightarrow> 'a heap" where
  "Query_call self obj h =
     (let h1 = set_result self (RSeq obj) h;
          (c, h2) = new_list h1
      in h2\<lparr>nodes := (nodes h2)(self := (nodes h2 self)\<lparr>cached_result := c\<rparr>)\<rparr>)"

text \<open>\<^verbatim>\<open>__iter__\<close> is a generator function: calling it only creates the generator object.\<close>

definition Query_iter :: "addr \<Rightarrow> 'a heap \<Rightarrow> addr \<times> 'a heap" where
  "Query_iter self h = new_gen (QueryIterFresh self) h"

text \<open>
  The builtin \<^verbatim>\<open>iter\<close> on what a result can be: \<^verbatim>\<open>None\<close> is not iterable, a list gives a
  new list iterator, a generator is its own iterator, a \<^verbatim>\<open>Query\<close> node answers with
  \<^verbatim>\<open>__iter__\<close>.
\<close>

fun py_iter :: "'a resval \<Rightarrow> 'a heap \<Rightarrow> error + 'a iter \<times> 'a heap" where
  "py_iter RNone h = Inl TypeError"
| "py_iter (RSeq xs) h = Inr (ListIter xs 0, h)"
| "py_iter (RGen g) h = Inr (GenIter g, h)"
| "py_iter (RQuery q) h = (let (g, h1) = Query_iter q h in Inr (GenIter g, h1))"

datatype 'a outcome = Yield 'a | Stop | Raise error

text \<open>
  One \<^verbatim>\<open>next\<close> on an iterator, given the \<^verbatim>\<open>next\<close> of generator objects.  A list iterator
  compares its index with the current length of the list.
\<close>

definition iter_next ::
  "(addr \<Rightarrow> 'a heap \<Rightarrow> ('a outcome \<times> 'a heap) option) \<Rightarrow> 'a iter \<Rightarrow> 'a heap
     \<Rightarrow> ('a outcome \<times> 'a iter \<times> 'a heap) option" where
  "iter_next nxt it h =
     (case it of
        ListIter xs i \<Rightarrow>
          if i < length xs then Some (Yield (xs ! i), ListIter xs (Suc i), h)
          else Some (Stop, ListIter xs i, h)
      | GenIter g \<Rightarrow>
          (case nxt g h of None \<Rightarrow> None | Some (out, h1) \<Rightarrow> Some (out, GenIter g, h1)))"

text \<open>
  The condition of a generator expression reads the cell of \<^verbatim>\<open>value\<close> when it is
  evaluated.  Elements are data: an element is never equal to a function object, so
  \<^verbatim>\<open>r != value\<close> is true when \<^verbatim>\<open>value\<close> is a callable; \<^verbatim>\<open>==\<close> and \<^verbatim>\<open>!=\<close> on elements are
  the equality of the element type.
\<close>

fun genexp_cond :: "gkind \<Rightarrow> 'a arg option \<Rightarrow> 'a \<Rightarrow> error + bool" where
  "genexp_cond k None r = Inl NameError"
| "genexp_cond Call (Some (Fn p)) r = p r"
| "genexp_cond Call (Some (Lit v)) r = Inl TypeError"
| "genexp_cond NotEqual (Some (Lit v)) r = Inr (r \<noteq> v)"
| "genexp_cond NotEqual (Some (Fn p)) r = Inr True"

text \<open>\<^verbatim>\<open>self._cached_result.append(r)\<close>: the attribute is read when the element is appended.\<close>

definition cache_append :: "addr \<Rightarrow> 'a \<Rightarrow> 'a heap \<Rightarrow> 'a heap" where
  "cache_append q r h =
     h\<lparr>lists := (lists h)(cached_result (nodes h q) := lists h (cached_result (nodes h q)) @ [r])\<rparr>"

text \<open>
  \<^verbatim>\<open>next\<close> on a generator object.  Generators call each other through the store, so the
  function takes fuel, and \<open>None\<close> means the fuel ran out.

  \<^item> \<^verbatim>\<open>Query.__iter__\<close>, first \<^verbatim>\<open>next\<close>: a non-empty cache list starts the replay loop,
    otherwise \<^verbatim>\<open>iter(self.result)\<close> starts the walk.
  \<^item> the replay loop yields the list's next element or returns.
  \<^item> the walk takes the next element of the source, appends it to the cache and yields it.
  \<^item> a generator expression takes elements of its source until one passes the condition.
\<close>

primrec gen_next :: "nat \<Rightarrow> addr \<Rightarrow> 'a heap \<Rightarrow> ('a outcome \<times> 'a heap) option" where
  "gen_next 0 a h = None"
| "gen_next (Suc n) a h =
     (case gens h a of
        Finished \<Rightarrow> Some (Stop, h)
      | QueryIterFresh q \<Rightarrow>
          if cache h q \<noteq> []
          then gen_next n a (set_gen a (QueryIterReplay (cached_result (nodes h q)) 0) h)
          else (case result n h q of
                  None \<Rightarrow> None
                | Some r \<Rightarrow>
                    (case py_iter r h of
                       Inl e \<Rightarrow> Some (Raise e, set_gen a Finished h)
                     | Inr (it, h1) \<Rightarrow> gen_next n a (set_gen a (QueryIterWalk q it) h1)))
      | QueryIterReplay c i \<Rightarrow>
          if i < length (lists h c)
          then Some (Yield (lists h c ! i), set_gen a (QueryIterReplay c (Suc i)) h)
          else Some (Stop, set_gen a Finished h)
      | QueryIterWalk q it \<Rightarrow>
          (case iter_next (gen_next n) it h of
             None \<Rightarrow> None
           | Some (Yield r, it1, h1) \<Rightarrow>
               Some (Yield r, set_gen a (QueryIterWalk q it1) (cache_append q r h1))
           | Some (Stop, it1, h1) \<Rightarrow> Some (Stop, set_gen a Finished h1)
           | Some (Raise e, it1, h1) \<Rightarrow> Some (Raise e, set_gen a Finished h1))
      | GenExp k c it \<Rightarrow>
          (case iter_next (gen_next n) it h of
             None \<Rightarrow> None
           | Some (Yield r, it1, h1) \<Rightarrow>
               (case genexp_cond k (cells h1 c) r of
                  Inl e \<Rightarrow> Some (Raise e, set_gen a Finished h1)
                | Inr True \<Rightarrow> Some (Yield r, set_gen a (GenExp k c it1) h1)
                | Inr False \<Rightarrow> gen_next n a (set_gen a (GenExp k c it1) h1))
           | Some (Stop, it1, h1) \<Rightarrow> Some (Stop, set_gen a Finished h1)
           | Some (Raise e, it1, h1) \<Rightarrow> Some (Raise e, set_gen a Finished h1)))"

text \<open>
  \<^verbatim>\<open>list(q)\<close>: creates the generator with \<^verbatim>\<open>__iter__\<close> and calls \<^verbatim>\<open>next\<close> until it stops;
  an exception leaves \<^verbatim>\<open>list\<close> without a value.
\<close>

primrec drain :: "nat \<Rightarrow> addr \<Rightarrow> 'a list \<Rightarrow> 'a heap \<Rightarrow> ((error + 'a list) \<times> 'a heap) option" where
  "drain 0 g acc h = None"
| "drain (Suc n) g acc h =
     (case gen_next n g h of
        None \<Rightarrow> None
      | Some (Yield r, h1) \<Rightarrow> drain n g (acc @ [r]) h1
      | Some (Stop, h1) \<Rightarrow> Some (Inr acc, h1)
      | Some (Raise e, h1) \<Rightarrow> Some (Inl e, h1))"

definition py_list :: "nat \<Rightarrow> addr \<Rightarrow> 'a heap \<Rightarrow> ((error + 'a list) \<times> 'a heap) option" where
  "py_list n q h = (let (g, h1) = Query_iter q h in drain n g [] h1)"

section \<open>The transforms and the decorator\<close>

text \<open>
  One loop of \<^verbatim>\<open>filter\<close>.  Each round assigns the loop variable \<^verbatim>\<open>value\<close>, which is one cell
  of the call's frame, and wraps \<^verbatim>\<open>result\<close> in a generator expression.  Python evaluates
  the source \<^verbatim>\<open>iter(result)\<close> of the expression at once; the condition \<^verbatim>\<open>value(r)\<close> is
  evaluated when the generator runs, and reads the cell then.  The keyword loop has the
  same body, over the values of \<^verbatim>\<open>kwargs\<close>.
\<close>

fun filter_loop :: "addr \<Rightarrow> 'a arg list \<Rightarrow> 'a resval \<Rightarrow> 'a heap \<Rightarrow> error + 'a resval \<times> 'a heap" where
  "filter_loop c [] res h = Inr (res, h)"
| "filter_loop c (v # vs) res h =
     (let h1 = set_cell c v h in
      if callable v then
        (case py_iter res h1 of
           Inl e \<Rightarrow> Inl e
         | Inr (it, h2) \<Rightarrow>
             (let (g, h3) = new_gen (GenExp Call c it) h2 in filter_loop c vs (RGen g) h3))
      else Inl NotImplementedError)"

text \<open>The positional loop of \<^verbatim>\<open>exclude\<close>: no test of the argument, condition \<^verbatim>\<open>r != value\<close>.\<close>

fun exclude_loop :: "addr \<Rightarrow> 'a arg list \<Rightarrow> 'a resval \<Rightarrow> 'a heap \<Rightarrow> error + 'a resval \<times> 'a heap" where
  "exclude_loop c [] res h = Inr (res, h)"
| "exclude_loop c (v # vs) res h =
     (let h1 = set_cell c v h in
      (case py_iter res h1 of
         Inl e \<Rightarrow> Inl e
       | Inr (it, h2) \<Rightarrow>
           (let (g, h3) = new_gen (GenExp NotEqual c it) h2 in exclude_loop c vs (RGen g) h3)))"

definition filter_py ::
  "'a resval \<Rightarrow> 'a arg list \<Rightarrow> (string \<times> 'a arg) list \<Rightarrow> 'a heap \<Rightarrow> error + 'a resval \<times> 'a heap" where
  "filter_py res args kwargs h =
     (let (c, h0) = new_cell h in
      case filter_loop c args res h0 of
        Inl e \<Rightarrow> Inl e
      | Inr (res1, h1) \<Rightarrow> filter_loop c (map snd kwargs) res1 h1)"

definition exclude_py ::
  "'a resval \<Rightarrow> 'a arg list \<Rightarrow> (string \<times> 'a arg) list \<Rightarrow> 'a heap \<Rightarrow> error + 'a resval \<times> 'a heap" where
  "exclude_py res args kwargs h =
     (let (c, h0) = new_cell h in
      case exclude_loop c args res h0 of
        Inl e \<Rightarrow> Inl e
      | Inr (res1, h1) \<Rightarrow> filter_loop c (map snd kwargs) res1 h1)"

fun transform_fn ::
  "transform \<Rightarrow> 'a resval \<Rightarrow> 'a arg list \<Rightarrow> (string \<times> 'a arg) list \<Rightarrow> 'a heap
     \<Rightarrow> error + 'a resval \<times> 'a heap" where
  "transform_fn Filter = filter_py"
| "transform_fn Exclude = exclude_py"

text \<open>
  \<^verbatim>\<open>queryable\<close>: the wrapper creates a node with the same actions and \<^verbatim>\<open>self\<close> as parent,
  calls the transform on the node \<^verbatim>\<open>self\<close> itself, and stores what it returns as the new
  node's own result.
\<close>

definition queryable ::
  "transform \<Rightarrow> addr \<Rightarrow> 'a arg list \<Rightarrow> (string \<times> 'a arg) list \<Rightarrow> 'a heap \<Rightarrow> error + addr \<times> 'a heap" where
  "queryable func self args kwargs h =
     (let (query, h1) = Query_new (actions (nodes h self)) (Some self) h in
      case transform_fn func (RQuery self) args kwargs h1 of
        Inl e \<Rightarrow> Inl e
      | Inr (res, h2) \<Rightarrow> Inr (query, set_result query res h2))"

text \<open>\<^verbatim>\<open>Query.__getattr__\<close>: a registered name gives the wrapper bound to the node.\<close>

definition Query_getattr ::
  "addr \<Rightarrow> string \<Rightarrow> 'a heap
     \<Rightarrow> error + ('a arg list \<Rightarrow> (string \<times> 'a arg) list \<Rightarrow> 'a heap \<Rightarrow> error + addr \<times> 'a heap)" where
  "Query_getattr self name h =
     (case actions (nodes h self) name of
        Some f \<Rightarrow> Inr (queryable f self)
      | None \<Rightarrow> Inl AttributeError)"

text \<open>A method call \<^verbatim>\<open>q.name(*args, **kwargs)\<close>.\<close>

definition call_method ::
  "addr \<Rightarrow> string \<Rightarrow> 'a arg list \<Rightarrow> (string \<times> 'a arg) list \<Rightarrow> 'a heap \<Rightarrow> error + addr \<times> 'a heap" where
  "call_method self name args kwargs h =
     (case Query_getattr self name h of
        Inl e \<Rightarrow> Inl e
      | Inr f \<Rightarrow> f args kwargs h)"

text \<open>
  A sequence of method calls, each on the node the call before returned, as in
  \<^verbatim>\<open>Q(S).filter(p).exclude(v)\<close>.  The value is the list of the nodes the calls created.
\<close>

type_synonym 'a call = "transform \<times> 'a arg list \<times> (string \<times> 'a arg) list"

fun chain :: "addr \<Rightarrow> 'a call list \<Rightarrow> 'a heap \<Rightarrow> error + addr list \<times> 'a heap" where
  "chain q [] h = Inr ([], h)"
| "chain q ((f, args, kwargs) # cs) h =
     (case call_method q (transform_name f) args kwargs h of
        Inl e \<Rightarrow> Inl e
      | Inr (q1, h1) \<Rightarrow>
          (case chain q1 cs h1 of
             Inl e \<Rightarrow> Inl e
           | Inr (qs, h2) \<Rightarrow> Inr (q1 # qs, h2)))"

text \<open>\<^verbatim>\<open>Q = Query(...)\<close> followed by \<^verbatim>\<open>Q(S)\<close>.\<close>

definition bound_root :: "transform list \<Rightarrow> 'a list \<Rightarrow> 'a heap \<Rightarrow> addr \<times> 'a heap" where
  "bound_root regs S h = (let (q, h1) = Query_init regs h in (q, Query_call q S h1))"

section \<open>The class Value\<close>

text \<open>
  A \<^verbatim>\<open>Value\<close> holds \<^verbatim>\<open>_getattr\<close>: \<^verbatim>\<open>None\<close> or a function from an object to an object.
  The objects are the elements of the bound sequence and what attribute lookups on them
  return; they are of a type \<open>'o\<close>.  What Python's builtins do on them is not code of the
  module, so the builtins are arguments of the definitions: \<open>ga\<close> is \<^verbatim>\<open>getattr\<close> on objects,
  and each comparison method takes the comparison operator on objects.
\<close>

datatype 'o Value = Value "('o \<Rightarrow> error + 'o) option"

text \<open>\<^verbatim>\<open>_check_attr\<close>: with an accessor, the comparison is applied to what the accessor returns.\<close>

fun Value_check_attr :: "'o Value \<Rightarrow> ('o \<Rightarrow> error + bool) \<Rightarrow> 'o \<Rightarrow> error + bool" where
  "Value_check_attr (Value None) cmp = cmp"
| "Value_check_attr (Value (Some g)) cmp =
     (\<lambda>x. case g x of Inl e \<Rightarrow> Inl e | Inr y \<Rightarrow> cmp y)"

text \<open>
  \<^verbatim>\<open>__eq__\<close>, \<^verbatim>\<open>__lt__\<close> and \<^verbatim>\<open>__gt__\<close>: the function \<^verbatim>\<open>comp\<close> compares its argument with
  \<^verbatim>\<open>other\<close> by \<^verbatim>\<open>==\<close>, \<^verbatim>\<open><\<close> or \<^verbatim>\<open>>\<close>, the first argument of the definition.
\<close>

definition Value_eq :: "('o \<Rightarrow> 'o \<Rightarrow> error + bool) \<Rightarrow> 'o Value \<Rightarrow> 'o \<Rightarrow> 'o \<Rightarrow> error + bool" where
  "Value_eq op_eq self other = Value_check_attr self (\<lambda>x. op_eq x other)"

definition Value_lt :: "('o \<Rightarrow> 'o \<Rightarrow> error + bool) \<Rightarrow> 'o Value \<Rightarrow> 'o \<Rightarrow> 'o \<Rightarrow> error + bool" where
  "Value_lt op_lt self other = Value_check_attr self (\<lambda>x. op_lt x other)"

definition Value_gt :: "('o \<Rightarrow> 'o \<Rightarrow> error + bool) \<Rightarrow> 'o Value \<Rightarrow> 'o \<Rightarrow> 'o \<Rightarrow> error + bool" where
  "Value_gt op_gt self other = Value_check_attr self (\<lambda>x. op_gt x other)"

text \<open>
  The method \<^verbatim>\<open>Value.__getattr__\<close>: the new accessor applies the old one, if there is one,
  and then \<^verbatim>\<open>getattr\<close>; the result is a new \<^verbatim>\<open>Value\<close> with that accessor.
\<close>

fun Value_getattr :: "('o \<Rightarrow> string \<Rightarrow> error + 'o) \<Rightarrow> 'o Value \<Rightarrow> string \<Rightarrow> 'o Value" where
  "Value_getattr ga (Value None) name = Value (Some (\<lambda>obj. ga obj name))"
| "Value_getattr ga (Value (Some g)) name =
     Value (Some (\<lambda>obj. case g obj of Inl e \<Rightarrow> Inl e | Inr obj1 \<Rightarrow> ga obj1 name))"

text \<open>
  Python calls \<^verbatim>\<open>__getattr__\<close> only for a name that the normal lookup does not find.  On a
  \<^verbatim>\<open>Value\<close> the normal lookup finds the instance attribute \<^verbatim>\<open>_getattr\<close>, which
  \<^verbatim>\<open>__init__\<close> sets, and the methods that the class defines.  The other names that begin with
  two underscores (\<^verbatim>\<open>__class__\<close>, \<^verbatim>\<open>__dict__\<close>, \<^verbatim>\<open>__doc__\<close>, ...) belong to the interpreter:
  which of them exist, and what they hold, is outside this model.  Every other name is not
  found, because neither the class nor \<^verbatim>\<open>object\<close> has it, and reaches \<^verbatim>\<open>__getattr__\<close>: these
  are the plain names.
\<close>

definition special :: "string \<Rightarrow> bool" where
  "special name = (take 2 name = ''__'')"

definition Value_methods :: "string list" where
  "Value_methods = [''__init__'', ''_check_attr'', ''__eq__'', ''__lt__'', ''__gt__'', ''__getattr__'']"

definition plain :: "string \<Rightarrow> bool" where
  "plain name = (\<not> special name \<and> name \<noteq> ''_getattr'' \<and> name \<notin> set Value_methods)"

text \<open>
  What an expression \<^verbatim>\<open>value.a1.a2...\<close> of the model evaluates to: a \<^verbatim>\<open>Value\<close>; the contents
  of the attribute \<^verbatim>\<open>_getattr\<close> (\<^verbatim>\<open>None\<close> or the accessor function); or a bound method of
  \<^verbatim>\<open>Value\<close>.
\<close>

datatype 'o expr = EValue "'o Value" | EStored "('o \<Rightarrow> error + 'o) option" | EMethod

fun Value_stored :: "'o Value \<Rightarrow> ('o \<Rightarrow> error + 'o) option" where
  "Value_stored (Value a) = a"

text \<open>
  The attribute access \<^verbatim>\<open>v.name\<close> on a \<^verbatim>\<open>Value\<close>: what the normal lookup finds, or the
  result of \<^verbatim>\<open>__getattr__\<close>.  The result is \<open>None\<close> for the names that are outside the
  model.
\<close>

definition Value_attr :: "('o \<Rightarrow> string \<Rightarrow> error + 'o) \<Rightarrow> 'o Value \<Rightarrow> string \<Rightarrow> 'o expr option" where
  "Value_attr ga v name =
     (if name = ''_getattr'' then Some (EStored (Value_stored v))
      else if name \<in> set Value_methods then Some EMethod
      else if special name then None
      else Some (EValue (Value_getattr ga v name)))"

text \<open>
  The attribute access \<^verbatim>\<open>e.name\<close> on what an expression evaluated to: an object or an
  exception, or \<open>None\<close> when the access is outside the model.  \<^verbatim>\<open>None\<close>, a function and a
  bound method have no attribute whose name does not begin with two underscores, so the
  lookup of such a name on them raises \<^verbatim>\<open>AttributeError\<close>.
\<close>

fun attr_step :: "('o \<Rightarrow> string \<Rightarrow> error + 'o) \<Rightarrow> 'o expr \<Rightarrow> string \<Rightarrow> (error + 'o expr) option" where
  "attr_step ga (EValue v) name = map_option Inr (Value_attr ga v name)"
| "attr_step ga e name = (if special name then None else Some (Inl AttributeError))"

text \<open>The module's \<^verbatim>\<open>value = Value()\<close>, and the expression \<^verbatim>\<open>value.a1.a2...ak\<close>.\<close>

definition value_placeholder :: "'o Value" where
  "value_placeholder = Value None"

fun attr_path :: "('o \<Rightarrow> string \<Rightarrow> error + 'o) \<Rightarrow> 'o expr \<Rightarrow> string list \<Rightarrow> (error + 'o expr) option" where
  "attr_path ga e [] = Some (Inr e)"
| "attr_path ga e (name # names) =
     (case attr_step ga e name of
        None \<Rightarrow> None
      | Some (Inl err) \<Rightarrow> Some (Inl err)
      | Some (Inr e1) \<Rightarrow> attr_path ga e1 names)"

definition attr_chain :: "('o \<Rightarrow> string \<Rightarrow> error + 'o) \<Rightarrow> string list \<Rightarrow> (error + 'o expr) option" where
  "attr_chain ga names = attr_path ga (EValue value_placeholder) names"

text \<open>
  The specification's reading of an accessor chain: the attribute lookups applied in
  order, starting from the element.
\<close>

fun resolve_path :: "('o \<Rightarrow> string \<Rightarrow> error + 'o) \<Rightarrow> string list \<Rightarrow> 'o \<Rightarrow> error + 'o" where
  "resolve_path ga [] x = Inr x"
| "resolve_path ga (name # names) x =
     (case ga x name of Inl e \<Rightarrow> Inl e | Inr y \<Rightarrow> resolve_path ga names y)"

section \<open>The objects of the examples\<close>

text \<open>
  The examples run on integers and on instances of a class like the module's \<^verbatim>\<open>Bleh\<close>, which
  defines special methods only: an instance has an identity and its instance attributes.

  \<open>py_getattr\<close> is \<^verbatim>\<open>getattr\<close> on these objects.  An integer has the data attributes
  \<^verbatim>\<open>real\<close>, \<^verbatim>\<open>imag\<close>, \<^verbatim>\<open>numerator\<close> and \<^verbatim>\<open>denominator\<close> and the methods listed in
  \<open>int_methods\<close> (as of CPython 3.12); an instance has the attributes of its table;
  \<open>PMethod x name\<close> is the method \<open>name\<close> of the integer \<open>x\<close>, a builtin method object, which
  has no attribute of a plain name.  The names that begin with two underscores are outside
  the model, as they are on a \<^verbatim>\<open>Value\<close>: for them, and for every lookup on what they gave,
  \<open>py_getattr\<close> returns \<open>POther\<close>, which stands for an outcome that is not modelled.  No
  example looks up such a name.
\<close>

datatype pyobj = PInt int | PObj nat "(string \<times> pyobj) list" | PMethod pyobj string | POther

definition int_methods :: "string list" where
  "int_methods = [''as_integer_ratio'', ''bit_count'', ''bit_length'', ''conjugate'',
                  ''from_bytes'', ''is_integer'', ''to_bytes'']"

fun py_getattr :: "pyobj \<Rightarrow> string \<Rightarrow> error + pyobj" where
  "py_getattr (PInt i) name =
     (if special name then Inr POther
      else if name = ''real'' \<or> name = ''numerator'' then Inr (PInt i)
      else if name = ''imag'' then Inr (PInt 0)
      else if name = ''denominator'' then Inr (PInt 1)
      else if name \<in> set int_methods then Inr (PMethod (PInt i) name)
      else Inl AttributeError)"
| "py_getattr (PObj oid attrs) name =
     (if special name then Inr POther
      else case map_of attrs name of None \<Rightarrow> Inl AttributeError | Some v \<Rightarrow> Inr v)"
| "py_getattr (PMethod x n) name =
     (if special name then Inr POther else Inl AttributeError)"
| "py_getattr POther name = Inr POther"

text \<open>
  The comparisons of integers, instances and methods.  Two integers are compared as
  integers.  An instance whose class defines no comparison is equal to itself only, and
  \<^verbatim>\<open><\<close> and \<^verbatim>\<open>>\<close> raise \<^verbatim>\<open>TypeError\<close> unless both sides are integers.  No example compares
  \<open>POther\<close>.
\<close>

definition py_eq :: "pyobj \<Rightarrow> pyobj \<Rightarrow> error + bool" where
  "py_eq x other = Inr (x = other)"

fun py_lt :: "pyobj \<Rightarrow> pyobj \<Rightarrow> error + bool" where
  "py_lt (PInt a) (PInt b) = Inr (a < b)"
| "py_lt x other = Inl TypeError"

fun py_gt :: "pyobj \<Rightarrow> pyobj \<Rightarrow> error + bool" where
  "py_gt (PInt a) (PInt b) = Inr (b < a)"
| "py_gt x other = Inl TypeError"

section \<open>What the calls of a chain decide for one element\<close>

text \<open>
  An element passes a sequence of conditions one after the other: the first condition that
  raises or is false decides, and the conditions after it are not evaluated.
\<close>

definition and_then :: "error + bool \<Rightarrow> error + bool \<Rightarrow> error + bool" where
  "and_then r s = (case r of Inl e \<Rightarrow> Inl e | Inr False \<Rightarrow> Inr False | Inr True \<Rightarrow> s)"

text \<open>
  The conditions of the generator expressions of one call, in the order in which the call
  created them.  All of them read the same cell, so they are given the same value \<open>v\<close> of
  \<^verbatim>\<open>value\<close>.
\<close>

fun conds_test :: "gkind list \<Rightarrow> 'a arg option \<Rightarrow> 'a \<Rightarrow> error + bool" where
  "conds_test [] v x = Inr True"
| "conds_test (k # ks) v x = and_then (genexp_cond k v x) (conds_test ks v x)"

text \<open>
  The condition of the positional loop: \<^verbatim>\<open>value(r)\<close> in \<^verbatim>\<open>filter\<close>, \<^verbatim>\<open>r != value\<close> in
  \<^verbatim>\<open>exclude\<close>.
\<close>

fun first_kind :: "transform \<Rightarrow> gkind" where
  "first_kind Filter = Call"
| "first_kind Exclude = NotEqual"

text \<open>
  What the variable \<^verbatim>\<open>value\<close> of a call holds once both loops have run: the last keyword
  value, or the last positional argument when there is no keyword argument; it is unbound when
  the call had no argument.
\<close>

definition bound_value :: "'a arg list \<Rightarrow> (string \<times> 'a arg) list \<Rightarrow> 'a arg option" where
  "bound_value args kwargs =
     (if args @ map snd kwargs = [] then None else Some (last (args @ map snd kwargs)))"

text \<open>
  What one call decides for an element that reaches it: one condition for each argument,
  all of them evaluated on the final value of \<^verbatim>\<open>value\<close>.
\<close>

definition op_test :: "'a call \<Rightarrow> 'a \<Rightarrow> error + bool" where
  "op_test op x =
     (case op of (f, args, kwargs) \<Rightarrow>
        conds_test (replicate (length args) (first_kind f) @ replicate (length kwargs) Call)
          (bound_value args kwargs) x)"

text \<open>
  What a chain of calls decides for an element of the bound sequence.
\<close>

fun chain_test :: "'a call list \<Rightarrow> 'a \<Rightarrow> error + bool" where
  "chain_test [] x = Inr True"
| "chain_test (op # ops) x = and_then (op_test op x) (chain_test ops x)"

text \<open>
  The outcome of \<^verbatim>\<open>list\<close> over a sequence whose elements are decided by \<open>T\<close>: the first
  element on which \<open>T\<close> raises ends the iteration with that error.
\<close>

fun filter_run :: "('a \<Rightarrow> error + bool) \<Rightarrow> 'a list \<Rightarrow> error + 'a list" where
  "filter_run T [] = Inr []"
| "filter_run T (x # xs) =
     (case T x of
        Inl e \<Rightarrow> Inl e
      | Inr keep \<Rightarrow>
          (case filter_run T xs of
             Inl e \<Rightarrow> Inl e
           | Inr ys \<Rightarrow> Inr (if keep then x # ys else ys)))"

text \<open>
  The whole effect on the store of an iteration that only replays a cache: one new
  generator object, finished.
\<close>

definition replay_effect :: "'a heap \<Rightarrow> 'a heap" where
  "replay_effect h = h\<lparr>gens := (gens h)(next_addr h := Finished), next_addr := Suc (next_addr h)\<rparr>"

section \<open>Programs run on the model\<close>

text \<open>
  The module's \<^verbatim>\<open>Q = Query(filter, exclude)\<close> bound to a sequence, \<^verbatim>\<open>Q(S)\<close>, in an empty store.
\<close>

definition Q_bound :: "pyobj list \<Rightarrow> addr \<times> pyobj heap" where
  "Q_bound S = bound_root [Filter, Exclude] S empty_heap"

text \<open>
  \<^verbatim>\<open>list(Q(S).f1(...).f2(...))\<close>: binds, applies the calls, iterates the last view.
\<close>

definition run_query :: "nat \<Rightarrow> pyobj list \<Rightarrow> pyobj call list \<Rightarrow> (error + pyobj list) option" where
  "run_query n S ops =
     (case chain (fst (Q_bound S)) ops (snd (Q_bound S)) of
        Inl e \<Rightarrow> Some (Inl e)
      | Inr (qs, h) \<Rightarrow> map_option fst (py_list n (last (fst (Q_bound S) # qs)) h))"

text \<open>
  A list of integers as elements.
\<close>

definition ints :: "int list \<Rightarrow> pyobj list" where
  "ints xs = map PInt xs"

text \<open>
  The predicates \<^verbatim>\<open>value > c\<close> and \<^verbatim>\<open>value < c\<close> of the module's test usage, as arguments.
\<close>

definition value_gt :: "int \<Rightarrow> pyobj arg" where
  "value_gt c = Fn (Value_gt py_gt value_placeholder (PInt c))"

definition value_lt :: "int \<Rightarrow> pyobj arg" where
  "value_lt c = Fn (Value_lt py_lt value_placeholder (PInt c))"


text \<open>
  The value of \<^verbatim>\<open>list(q)\<close>, and the store it leaves.
\<close>

definition listed :: "nat \<Rightarrow> addr \<Rightarrow> 'a heap \<Rightarrow> (error + 'a list) option" where
  "listed n q h = map_option fst (py_list n q h)"

definition heap_after :: "nat \<Rightarrow> addr \<Rightarrow> 'a heap \<Rightarrow> 'a heap" where
  "heap_after n q h = (case py_list n q h of Some (r, h') \<Rightarrow> h' | None \<Rightarrow> h)"

text \<open>
  An iteration that returned and whose only effect was \<open>replay_effect\<close>.
\<close>

definition replayed :: "nat \<Rightarrow> addr \<Rightarrow> 'a heap \<Rightarrow> bool" where
  "replayed n q h = (py_list n q h \<noteq> None \<and> heap_after n q h = replay_effect h)"

text \<open>
  A caller that stops early: \<^verbatim>\<open>it = iter(q); next(it)\<close>, and the iterator is dropped.
\<close>

definition partial_pass :: "nat \<Rightarrow> addr \<Rightarrow> 'a heap \<Rightarrow> 'a outcome \<times> 'a heap" where
  "partial_pass n q h =
     (case gen_next n (fst (Query_iter q h)) (snd (Query_iter q h)) of
        Some r \<Rightarrow> r
      | None \<Rightarrow> (Stop, h))"

text \<open>
  \<^verbatim>\<open>Q([]).filter()\<close>: a view of the empty sequence, made by a call without argument.
\<close>

definition empty_filter_view :: "addr \<times> pyobj heap" where
  "empty_filter_view =
     (case call_method (fst (Q_bound [])) ''filter'' [] [] (snd (Q_bound [])) of
        Inr r \<Rightarrow> r
      | Inl e \<Rightarrow> Q_bound [])"

text \<open>
  \<^verbatim>\<open>Q([1, 2, 3]).filter(value > 1).filter().exclude(3)\<close>, the nodes the three calls create
  and the store after them; one call \<^verbatim>\<open>Q([1, 2, 3]).filter(value > 2)\<close>; and the store after
  a partial iteration of \<^verbatim>\<open>Q([1, 2, 3])\<close>.
\<close>

definition ex_ops :: "pyobj call list" where
  "ex_ops = [(Filter, [value_gt 1], []), (Filter, [], []), (Exclude, [Lit (PInt 3)], [])]"

definition ex_chain :: "error + addr list \<times> pyobj heap" where
  "ex_chain = chain (fst (Q_bound (ints [1, 2, 3]))) ex_ops (snd (Q_bound (ints [1, 2, 3])))"

definition ex_nodes :: "addr list" where
  "ex_nodes = fst (projr ex_chain)"

definition ex_heap :: "pyobj heap" where
  "ex_heap = snd (projr ex_chain)"


definition ex_partial :: "pyobj heap" where
  "ex_partial = snd (partial_pass 3 (fst (Q_bound (ints [1, 2, 3]))) (snd (Q_bound (ints [1, 2, 3]))))"

section \<open>The generators behind a view\<close>

text \<open>
  Iterating a view pulls each element of the bound sequence through a column of generator
  objects.  A stage of the column is the generator of \<^verbatim>\<open>Query.__iter__\<close> of a node
  (\<open>Walker g q c\<close>: the generator, the node, the node's cache list) or a generator expression
  (\<open>Sieve g k c\<close>: the generator, its condition, its cell).  A column is a list of stages,
  the top stage first.  The definitions of this section and of the next are only used in
  proofs.
\<close>

datatype stage = Walker addr addr addr | Sieve addr gkind addr

fun gaddr :: "stage \<Rightarrow> addr" where
  "gaddr (Walker g q c) = g"
| "gaddr (Sieve g k c) = g"

fun caddrs :: "stage list \<Rightarrow> addr list" where
  "caddrs [] = []"
| "caddrs (Walker g q c # b) = c # caddrs b"
| "caddrs (Sieve g k c # b) = caddrs b"

fun naddrs :: "stage list \<Rightarrow> addr list" where
  "naddrs [] = []"
| "naddrs (Walker g q c # b) = q # naddrs b"
| "naddrs (Sieve g k c # b) = naddrs b"

fun stage_addrs :: "stage \<Rightarrow> addr list" where
  "stage_addrs (Walker g q c) = [g, q, c]"
| "stage_addrs (Sieve g k c) = [g, c]"

text \<open>
  What the sieves of a column decide for an element that enters at the bottom, the elements
  that leave the top, and the outcome of iterating the top over a sequence.
\<close>

fun push :: "(addr \<Rightarrow> 'a arg option) \<Rightarrow> stage list \<Rightarrow> 'a \<Rightarrow> error + bool" where
  "push cs [] x = Inr True"
| "push cs (Walker g q c # b) x = push cs b x"
| "push cs (Sieve g k c # b) x =
     (case push cs b x of
        Inl e \<Rightarrow> Inl e
      | Inr False \<Rightarrow> Inr False
      | Inr True \<Rightarrow> genexp_cond k (cs c) x)"

definition flow :: "(addr \<Rightarrow> 'a arg option) \<Rightarrow> stage list \<Rightarrow> 'a list \<Rightarrow> 'a list" where
  "flow cs sts xs = filter (\<lambda>x. push cs sts x = Inr True) xs"

fun run :: "(addr \<Rightarrow> 'a arg option) \<Rightarrow> stage list \<Rightarrow> 'a list \<Rightarrow> error + 'a list" where
  "run cs sts [] = Inr []"
| "run cs sts (x # xs) =
     (case push cs sts x of
        Inl e \<Rightarrow> Inl e
      | Inr keep \<Rightarrow>
          (case run cs sts xs of
             Inl e \<Rightarrow> Inl e
           | Inr ys \<Rightarrow> Inr (if keep then x # ys else ys)))"

fun with_acc :: "'a list \<Rightarrow> error + 'a list \<Rightarrow> error + 'a list" where
  "with_acc acc (Inl e) = Inl e"
| "with_acc acc (Inr ys) = Inr (acc @ ys)"

text \<open>
  The iterator that the stage above a column reads: the list iterator at index \<open>i\<close> when the
  column is empty, the top generator otherwise.  \<open>static_iter\<close> is \<^verbatim>\<open>iter\<close> on the results for
  which it creates no object.
\<close>

fun src_iter :: "'a list \<Rightarrow> nat \<Rightarrow> stage list \<Rightarrow> 'a iter" where
  "src_iter S i [] = ListIter S i"
| "src_iter S i (st # b) = GenIter (gaddr st)"

fun static_iter :: "'a resval \<Rightarrow> 'a iter option" where
  "static_iter (RSeq xs) = Some (ListIter xs 0)"
| "static_iter (RGen g) = Some (GenIter g)"
| "static_iter r = None"

text \<open>
  The invariant: in the store \<open>h\<close> the stages form a column over \<open>S\<close> of which the elements
  \<open>pre\<close> have entered.  A walker is in its walk, or has not started and its node has an empty
  cache; its cache holds the elements that reached it.  \<open>pipe_done\<close> is the column after the
  sequence is exhausted.
\<close>

fun stage_ok :: "'a heap \<Rightarrow> stage \<Rightarrow> 'a iter \<Rightarrow> 'a list \<Rightarrow> bool" where
  "stage_ok h (Walker g q c) it xs =
     (cached_result (nodes h q) = c \<and> lists h c = xs \<and>
      (gens h g = QueryIterWalk q it \<or>
       (gens h g = QueryIterFresh q \<and> xs = [] \<and> static_iter (own_result (nodes h q)) = Some it)))"
| "stage_ok h (Sieve g k c) it xs = (gens h g = GenExp k c it)"

fun pipe :: "'a heap \<Rightarrow> 'a list \<Rightarrow> 'a list \<Rightarrow> stage list \<Rightarrow> bool" where
  "pipe h S pre [] = True"
| "pipe h S pre (st # b) =
     (stage_ok h st (src_iter S (length pre) b) (flow (cells h) b pre) \<and> pipe h S pre b)"

fun stage_done :: "'a heap \<Rightarrow> stage \<Rightarrow> 'a list \<Rightarrow> bool" where
  "stage_done h (Walker g q c) xs =
     (gens h g = Finished \<and> cached_result (nodes h q) = c \<and> lists h c = xs)"
| "stage_done h (Sieve g k c) xs = (gens h g = Finished)"

fun pipe_done :: "'a heap \<Rightarrow> 'a list \<Rightarrow> stage list \<Rightarrow> bool" where
  "pipe_done h S [] = True"
| "pipe_done h S (st # b) = (stage_done h st (flow (cells h) b S) \<and> pipe_done h S b)"

text \<open>
  What a step of a column leaves alone, stores that agree on a column, and a store that
  only grew.
\<close>

definition frame :: "stage list \<Rightarrow> 'a heap \<Rightarrow> 'a heap \<Rightarrow> bool" where
  "frame sts h h' =
     (nodes h' = nodes h \<and> cells h' = cells h \<and> next_addr h' = next_addr h \<and>
      (\<forall>a. a \<notin> gaddr ` set sts \<longrightarrow> gens h' a = gens h a) \<and>
      (\<forall>a. a \<notin> set (caddrs sts) \<longrightarrow> lists h' a = lists h a))"

definition agree_on :: "stage list \<Rightarrow> 'a heap \<Rightarrow> 'a heap \<Rightarrow> bool" where
  "agree_on b h h2 =
     (nodes h2 = nodes h \<and> cells h2 = cells h \<and>
      (\<forall>a \<in> gaddr ` set b. gens h2 a = gens h a) \<and>
      (\<forall>a \<in> set (caddrs b). lists h2 a = lists h a))"

definition extends :: "'a heap \<Rightarrow> 'a heap \<Rightarrow> bool" where
  "extends h h2 =
     (next_addr h \<le> next_addr h2 \<and>
      (\<forall>a<next_addr h. nodes h2 a = nodes h a \<and> lists h2 a = lists h a \<and> gens h2 a = gens h a))"

text \<open>
  No two stages share a generator or a cache list; every address of a column is allocated.
\<close>

definition wf_stages :: "stage list \<Rightarrow> bool" where
  "wf_stages sts = (distinct (map gaddr sts) \<and> distinct (caddrs sts))"

text \<open>
  Every registered transform is registered under its own name.
\<close>

definition acts_ok :: "(string \<rightharpoonup> transform) \<Rightarrow> bool" where
  "acts_ok acts = (\<forall>n t. acts n = Some t \<longrightarrow> transform_name t = n)"

text \<open>
  \<open>next\<close> on a generator or an iterator, and \<^verbatim>\<open>list\<close>, with enough fuel.
\<close>

definition gnext :: "addr \<Rightarrow> 'a heap \<Rightarrow> 'a outcome \<times> 'a heap \<Rightarrow> bool" where
  "gnext a h r = (\<exists>n. gen_next n a h = Some r)"

definition inext :: "'a iter \<Rightarrow> 'a heap \<Rightarrow> 'a outcome \<times> 'a iter \<times> 'a heap \<Rightarrow> bool" where
  "inext it h r = (\<exists>n. iter_next (gen_next n) it h = Some r)"

definition drained :: "addr \<Rightarrow> 'a list \<Rightarrow> 'a heap \<Rightarrow> (error + 'a list) \<times> 'a heap \<Rightarrow> bool" where
  "drained g acc h r = (\<exists>n. drain n g acc h = Some r)"

text \<open>
  One \<open>next\<close> on the top of a column: the elements that some sieve drops are skipped; the
  first element that is not dropped is yielded, or raises; when none is left the column is
  exhausted.
\<close>

definition step_post ::
  "'a list \<Rightarrow> stage list \<Rightarrow> 'a heap \<Rightarrow> 'a list \<Rightarrow> 'a list \<Rightarrow> 'a outcome \<times> 'a iter \<times> 'a heap \<Rightarrow> bool" where
  "step_post S sts h pre rem r =
     (case dropWhile (\<lambda>x. push (cells h) sts x = Inr False) rem of
        [] \<Rightarrow> (\<exists>h'. r = (Stop, src_iter S (length S) sts, h') \<and> frame sts h h' \<and> pipe_done h' S sts)
      | y # rest \<Rightarrow>
          (case push (cells h) sts y of
             Inl e \<Rightarrow> (\<exists>it h'. r = (Raise e, it, h'))
           | Inr b \<Rightarrow>
               (\<exists>h'. r = (Yield y,
                           src_iter S (Suc (length pre + length (takeWhile (\<lambda>x. push (cells h) sts x = Inr False) rem))) sts,
                           h') \<and>
                     frame sts h h' \<and>
                     pipe h' S (pre @ takeWhile (\<lambda>x. push (cells h) sts x = Inr False) rem @ [y]) sts)))"

definition step_spec :: "'a list \<Rightarrow> stage list \<Rightarrow> 'a heap \<Rightarrow> 'a list \<Rightarrow> 'a list \<Rightarrow> bool" where
  "step_spec S sts h pre rem = (\<exists>r. inext (src_iter S (length pre) sts) h r \<and> step_post S sts h pre rem r)"

text \<open>
  One loop of a transform without its error exits.
\<close>

fun wrap_loop :: "gkind \<Rightarrow> addr \<Rightarrow> 'a arg list \<Rightarrow> 'a resval \<Rightarrow> 'a heap \<Rightarrow> 'a resval \<times> 'a heap" where
  "wrap_loop k c [] res h = (res, h)"
| "wrap_loop k c (v # vs) res h =
     (case py_iter res (set_cell c v h) of
        Inl e \<Rightarrow> (res, h)
      | Inr (it, h2) \<Rightarrow>
          (let (g, h3) = new_gen (GenExp k c it) h2 in wrap_loop k c vs (RGen g) h3))"

text \<open>
  The node \<open>q\<close> has a walker in the column, and the stages below it decide as \<open>T\<close>.
\<close>

definition tracked :: "'a heap \<Rightarrow> stage list \<Rightarrow> addr \<Rightarrow> ('a \<Rightarrow> error + bool) \<Rightarrow> bool" where
  "tracked h sts q T = (\<exists>a g c b. sts = a @ Walker g q c # b \<and> (\<forall>x. push (cells h) b x = T x))"

section \<open>The layers of a view before it is iterated\<close>

text \<open>
  Not every generator of the column exists before the iteration.  A generator expression
  evaluates \<^verbatim>\<open>iter(result)\<close> when the transform creates it, so the walker below a sieve
  exists from the call on.  But a transform called without argument returns the node it was
  given, the new node's result is that node, and its walker is created by \<^verbatim>\<open>iter(self.result)\<close>
  only when the new node is iterated; the same holds for the walker of the node that
  \<^verbatim>\<open>list\<close> is applied to.  A layer is a stage whose generator exists (\<open>Made\<close>) or the walker
  of a node that is still to be created (\<open>Pending q c\<close>: the node and its cache list).
\<close>

datatype layer = Made stage | Pending addr addr

text \<open>
  The stage of a layer, for what the sieves decide and for the nodes and cache lists of
  the walkers; a pending walker has no generator address yet.  \<open>made_gaddrs\<close> are the
  generators that exist.
\<close>

fun as_stage :: "layer \<Rightarrow> stage" where
  "as_stage (Made st) = st"
| "as_stage (Pending q c) = Walker 0 q c"

fun made_gaddrs :: "layer list \<Rightarrow> addr list" where
  "made_gaddrs [] = []"
| "made_gaddrs (Made st # b) = gaddr st # made_gaddrs b"
| "made_gaddrs (Pending q c # b) = made_gaddrs b"

text \<open>
  Every address of the layers is allocated; no two layers share a generator or a cache
  list.
\<close>

fun layer_addrs :: "layer \<Rightarrow> addr list" where
  "layer_addrs (Made st) = stage_addrs st"
| "layer_addrs (Pending q c) = [q, c]"

definition layers_bounded :: "'a heap \<Rightarrow> layer list \<Rightarrow> bool" where
  "layers_bounded h vs = (\<forall>v\<in>set vs. \<forall>a\<in>set (layer_addrs v). a < next_addr h)"

definition wf_layers :: "layer list \<Rightarrow> bool" where
  "wf_layers vs = (distinct (made_gaddrs vs) \<and> distinct (caddrs (map as_stage vs)))"

text \<open>
  The result of a node whose walker sits on top of a list of layers: the bound sequence,
  the generator expression on top, or the node of the pending walker on top.
\<close>

fun reads :: "'a list \<Rightarrow> layer list \<Rightarrow> 'a resval" where
  "reads S [] = RSeq S"
| "reads S (Made st # b) = RGen (gaddr st)"
| "reads S (Pending p c # b) = RQuery p"

text \<open>
  Before any iteration: every node of a walker has an empty cache list and the result that
  reads the layers below it, every walker that exists has not started, and every sieve reads
  the generator of the stage below it.
\<close>

definition node_ready :: "'a heap \<Rightarrow> 'a list \<Rightarrow> addr \<Rightarrow> addr \<Rightarrow> layer list \<Rightarrow> bool" where
  "node_ready h S q c b =
     (cached_result (nodes h q) = c \<and> lists h c = [] \<and> own_result (nodes h q) = reads S b)"

fun layers_ok :: "'a heap \<Rightarrow> 'a list \<Rightarrow> layer list \<Rightarrow> bool" where
  "layers_ok h S [] = True"
| "layers_ok h S (Made (Sieve g k c) # b) =
     ((\<exists>st b'. b = Made st # b' \<and> gens h g = GenExp k c (GenIter (gaddr st))) \<and> layers_ok h S b)"
| "layers_ok h S (Made (Walker g q c) # b) =
     (gens h g = QueryIterFresh q \<and> node_ready h S q c b \<and> layers_ok h S b)"
| "layers_ok h S (Pending q c # b) = (node_ready h S q c b \<and> layers_ok h S b)"

text \<open>
  What the first \<open>next\<close> on a walker that has not started does to the store before the walk
  takes its first element: \<^verbatim>\<open>iter(self.result)\<close>, which creates the generator of a pending
  walker below.  \<open>activate\<close> does this for every walker from the top down, which is the order
  in which the first \<open>next\<close> on the top reaches them, and returns the column of stages that
  results; the argument \<open>a\<close> is the generator of the top layer when that layer was pending.
\<close>

definition start_walk :: "addr \<Rightarrow> addr \<Rightarrow> 'a heap \<Rightarrow> 'a heap" where
  "start_walk g q h =
     (case py_iter (own_result (nodes h q)) h of
        Inl e \<Rightarrow> h
      | Inr (it, h1) \<Rightarrow> set_gen g (QueryIterWalk q it) h1)"

fun activate :: "addr \<Rightarrow> layer list \<Rightarrow> 'a heap \<Rightarrow> stage list \<times> 'a heap" where
  "activate a [] h = ([], h)"
| "activate a (Made (Sieve g k c) # b) h =
     (let (sts, h') = activate (next_addr h) b h in (Sieve g k c # sts, h'))"
| "activate a (Made (Walker g q c) # b) h =
     (let (sts, h') = activate (next_addr h) b (start_walk g q h) in (Walker g q c # sts, h'))"
| "activate a (Pending q c # b) h =
     (let (sts, h') = activate (next_addr h) b (start_walk a q h) in (Walker a q c # sts, h'))"

text \<open>
  A stage that stands for a layer, the generator on top of a list of layers, and the
  condition on a top layer whose generator has just been created.
\<close>

fun covers :: "stage \<Rightarrow> layer \<Rightarrow> bool" where
  "covers st (Made s) = (st = s)"
| "covers (Walker g q c) (Pending q' c') = (q = q' \<and> c = c')"
| "covers (Sieve g k c) (Pending q' c') = False"

fun top_gen :: "addr \<Rightarrow> layer list \<Rightarrow> addr" where
  "top_gen a [] = a"
| "top_gen a (Made st # b) = gaddr st"
| "top_gen a (Pending q c # b) = a"

fun pending_top :: "layer list \<Rightarrow> bool" where
  "pending_top (Pending q c # b) = True"
| "pending_top col = False"

fun top_ready :: "addr \<Rightarrow> 'a heap \<Rightarrow> layer list \<Rightarrow> bool" where
  "top_ready a h (Pending q c # b) = (a < next_addr h \<and> gens h a = QueryIterFresh q \<and> a \<notin> set (made_gaddrs b))"
| "top_ready a h col = True"

text \<open>
  A node that has not been iterated, on top of the layers that its result reads; and a
  generator expression on top of a list of layers.
\<close>

definition lazy_view :: "'a heap \<Rightarrow> 'a list \<Rightarrow> addr \<Rightarrow> layer list \<Rightarrow> bool" where
  "lazy_view h S q vs =
     (layers_ok h S (Pending q (cached_result (nodes h q)) # vs) \<and>
      wf_layers (Pending q (cached_result (nodes h q)) # vs) \<and>
      layers_bounded h (Pending q (cached_result (nodes h q)) # vs) \<and>
      acts_ok (actions (nodes h q)))"

definition lazy_feed :: "'a heap \<Rightarrow> 'a list \<Rightarrow> addr \<Rightarrow> layer list \<Rightarrow> bool" where
  "lazy_feed h S g vs =
     ((\<exists>st b. vs = Made st # b \<and> gaddr st = g) \<and> layers_ok h S vs \<and> wf_layers vs \<and> layers_bounded h vs)"

text \<open>
  The layer is the walker of the node \<open>q\<close>; and the node \<open>q\<close> has a walker among the
  layers, and the layers below it decide as \<open>T\<close>.
\<close>

definition walks :: "layer \<Rightarrow> addr \<Rightarrow> bool" where
  "walks W q = (\<exists>c. W = Pending q c \<or> (\<exists>g. W = Made (Walker g q c)))"

definition lazy_tracked :: "'a heap \<Rightarrow> layer list \<Rightarrow> addr \<Rightarrow> ('a \<Rightarrow> error + bool) \<Rightarrow> bool" where
  "lazy_tracked h vs q T =
     (\<exists>a W b. vs = a @ W # b \<and> walks W q \<and> (\<forall>x. push (cells h) (map as_stage b) x = T x))"

text \<open>
  The layers below a node after a full iteration, as far as a new iteration of the node
  looks at them: a generator that exists is finished, and the node of a pending walker holds
  in its cache the elements that reached it.
\<close>

fun layers_done :: "addr \<Rightarrow> 'a heap \<Rightarrow> 'a list \<Rightarrow> layer list \<Rightarrow> bool" where
  "layers_done N h S [] = True"
| "layers_done N h S (Made st # b) = (gens h (gaddr st) = Finished \<and> gaddr st < N)"
| "layers_done N h S (Pending p c # b) =
     (cached_result (nodes h p) = c \<and> lists h c = flow (cells h) (map as_stage b) S \<and>
      own_result (nodes h p) = reads S b \<and> layers_done N h S b)"

section \<open>Deferred comparisons\<close>

lemma resolve_path_snoc:
  "resolve_path ga (names @ [name]) x =
     (case resolve_path ga names x of Inl e \<Rightarrow> Inl e | Inr y \<Rightarrow> ga y name)"
  by (induction names arbitrary: x) (auto split: sum.splits)

lemma hook_chain:
  "names \<noteq> [] \<Longrightarrow>
   foldl (Value_getattr ga) value_placeholder names = Value (Some (resolve_path ga names))"
proof (induction names rule: rev_induct)
  case Nil
  then show ?case by simp
next
  case (snoc name names)
  show ?case
  proof (cases "names = []")
    case True
    then show ?thesis
      by (auto simp: value_placeholder_def fun_eq_iff split: sum.splits)
  next
    case False
    with snoc have "foldl (Value_getattr ga) value_placeholder names = Value (Some (resolve_path ga names))"
      by simp
    then show ?thesis
      by (simp add: resolve_path_snoc fun_eq_iff)
  qed
qed

lemma check_hook_chain:
  "Value_check_attr (foldl (Value_getattr ga) value_placeholder names) cmp x =
     (case resolve_path ga names x of Inl e \<Rightarrow> Inl e | Inr y \<Rightarrow> cmp y)"
proof (cases "names = []")
  case True
  then show ?thesis by (simp add: value_placeholder_def)
next
  case False
  then show ?thesis by (simp add: hook_chain)
qed

lemma plain_attr:
  "plain name \<Longrightarrow> Value_attr ga v name = Some (EValue (Value_getattr ga v name))"
  by (simp add: Value_attr_def plain_def)

lemma plain_path:
  "\<forall>n\<in>set names. plain n \<Longrightarrow>
   attr_path ga (EValue v) names = Some (Inr (EValue (foldl (Value_getattr ga) v names)))"
  by (induction names arbitrary: v) (simp_all add: plain_attr)

lemma plain_chain:
  "\<forall>n\<in>set names. plain n \<Longrightarrow>
   attr_chain ga names = Some (Inr (EValue (foldl (Value_getattr ga) value_placeholder names)))"
  by (simp add: attr_chain_def plain_path)

text \<open>
  C2, as amended.  For a chain of plain attribute names of any depth, building
  \<^verbatim>\<open>value.a1...ak\<close> raises nothing and gives a \<^verbatim>\<open>Value\<close>; the predicate that a comparison of
  it with a literal \<open>c\<close> builds, applied to an element \<open>x\<close>, looks the attributes up in order
  starting from \<open>x\<close> and compares what it finds with \<open>c\<close> (a failed lookup is the predicate's
  error); and one more access of a plain name gives the \<^verbatim>\<open>Value\<close> whose accessor is the
  parent's path followed by the new lookup.
\<close>

theorem deep_chain_predicate:
  assumes "\<forall>n\<in>set names. plain n" and "plain name"
  shows "\<exists>v. attr_chain ga names = Some (Inr (EValue v)) \<and>
     Value_gt op_gt v c x =
       (case resolve_path ga names x of Inl e \<Rightarrow> Inl e | Inr y \<Rightarrow> op_gt y c) \<and>
     Value_lt op_lt v c x =
       (case resolve_path ga names x of Inl e \<Rightarrow> Inl e | Inr y \<Rightarrow> op_lt y c) \<and>
     Value_eq op_eq v c x =
       (case resolve_path ga names x of Inl e \<Rightarrow> Inl e | Inr y \<Rightarrow> op_eq y c) \<and>
     attr_step ga (EValue v) name =
       Some (Inr (EValue (Value (Some (resolve_path ga (names @ [name]))))))"
proof -
  let ?v = "foldl (Value_getattr ga) value_placeholder names"
  have 1: "attr_chain ga names = Some (Inr (EValue ?v))" using assms(1) by (rule plain_chain)
  have "Value_getattr ga ?v name = foldl (Value_getattr ga) value_placeholder (names @ [name])"
    by simp
  also have "\<dots> = Value (Some (resolve_path ga (names @ [name])))" by (rule hook_chain) simp
  finally have 2: "attr_step ga (EValue ?v) name =
      Some (Inr (EValue (Value (Some (resolve_path ga (names @ [name]))))))"
    using assms(2) by (simp add: plain_attr)
  from 1 2 show ?thesis
    by (intro exI[of _ ?v]) (simp add: Value_gt_def Value_lt_def Value_eq_def check_hook_chain)
qed

section \<open>More fuel changes no result\<close>

lemma result_mono: "result n h q = Some r \<Longrightarrow> n \<le> m \<Longrightarrow> result m h q = Some r"
proof (induction n arbitrary: m q)
  case 0
  then show ?case by simp
next
  case (Suc n)
  then obtain m' where m: "m = Suc m'" "n \<le> m'" by (cases m) auto
  with Suc show ?case by (auto split: if_splits)
qed

lemma gen_next_mono: "gen_next n a (h::'a heap) = Some r \<Longrightarrow> n \<le> m \<Longrightarrow> gen_next m a h = Some r"
proof (induction n arbitrary: m a h r)
  case 0
  then show ?case by simp
next
  case (Suc n)
  then obtain m' where m: "m = Suc m'" "n \<le> m'" by (cases m) auto
  have it: "iter_next (gen_next m') it h0 = Some y" if "iter_next (gen_next n) it h0 = Some y"
    for it and h0 :: "'a heap" and y
    using that
    by (cases it) (auto simp: iter_next_def split: option.splits if_splits dest: Suc.IH[OF _ m(2)])
  show ?case
  proof (cases "gens h a")
    case (QueryIterFresh q)
    show ?thesis
    proof (cases "cache h q = []")
      case False
      with Suc.prems(1) QueryIterFresh show ?thesis unfolding m(1)
        by (auto dest: Suc.IH[OF _ m(2)])
    next
      case True
      with Suc.prems(1) QueryIterFresh obtain rr where rr: "result n h q = Some rr"
        by (auto split: option.splits)
      then have rr': "result m' h q = Some rr" using m(2) by (rule result_mono)
      show ?thesis
      proof (cases "py_iter rr h")
        case (Inl e)
        with Suc.prems(1) QueryIterFresh True rr rr' show ?thesis unfolding m(1) by simp
      next
        case (Inr p)
        with Suc.prems(1) QueryIterFresh True rr rr' show ?thesis unfolding m(1)
          by (cases p) (auto dest: Suc.IH[OF _ m(2)])
      qed
    qed
  next
    case (QueryIterReplay c i)
    with Suc.prems(1) show ?thesis unfolding m(1) by (auto split: if_splits)
  next
    case (QueryIterWalk q it0)
    with Suc.prems(1) show ?thesis unfolding m(1)
      by (auto split: option.splits outcome.splits dest!: it)
  next
    case (GenExp k c it0)
    with Suc.prems(1) show ?thesis unfolding m(1)
      by (auto split: option.splits outcome.splits sum.splits bool.splits if_splits
               dest!: it dest: Suc.IH[OF _ m(2)])
  next
    case Finished
    with Suc.prems(1) show ?thesis unfolding m(1) by simp
  qed
qed

section \<open>Rules for one next, without fuel\<close>

lemma static_iter_py_iter: "static_iter r = Some it \<Longrightarrow> py_iter r h = Inr (it, h) \<and> r \<noteq> RNone"
  by (cases r) auto

lemma inext_List_yield:
  "i < length xs \<Longrightarrow> inext (ListIter xs i) h (Yield (xs ! i), ListIter xs (Suc i), h)"
  by (simp add: inext_def iter_next_def)

lemma inext_List_stop:
  "\<not> i < length xs \<Longrightarrow> inext (ListIter xs i) h (Stop, ListIter xs i, h)"
  by (simp add: inext_def iter_next_def)

lemma iter_next_Gen_Some:
  "iter_next nxt (GenIter g) h = Some r \<longleftrightarrow> (\<exists>out h1. nxt g h = Some (out, h1) \<and> r = (out, GenIter g, h1))"
  by (cases "nxt g h") (auto simp: iter_next_def)

lemma inext_Gen_iff: "inext (GenIter g) h r = (\<exists>out h1. r = (out, GenIter g, h1) \<and> gnext g h (out, h1))"
  unfolding inext_def gnext_def iter_next_Gen_Some by blast

lemma inext_Gen: "gnext g h (out, h1) \<Longrightarrow> inext (GenIter g) h (out, GenIter g, h1)"
  by (simp add: inext_Gen_iff)

lemma gnext_Finished: "gens h a = Finished \<Longrightarrow> gnext a h (Stop, h)"
  unfolding gnext_def by (rule exI[of _ "Suc 0"]) simp

lemma gnext_Fresh_walk:
  assumes "gens h a = QueryIterFresh q" "cache h q = []" "static_iter (own_result (nodes h q)) = Some it"
    and "gnext a (set_gen a (QueryIterWalk q it) h) res"
  shows "gnext a h res"
proof -
  from assms(4) obtain n where n: "gen_next n a (set_gen a (QueryIterWalk q it) h) = Some res"
    by (auto simp: gnext_def)
  then obtain k where k: "n = Suc k" by (cases n) auto
  from static_iter_py_iter[OF assms(3)]
  have "py_iter (own_result (nodes h q)) h = Inr (it, h)" "own_result (nodes h q) \<noteq> RNone" by auto
  then have "gen_next (Suc n) a h = Some res"
    using assms(1,2) n k by simp
  then show ?thesis unfolding gnext_def by blast
qed

lemma gnext_Fresh_replay:
  assumes "gens h a = QueryIterFresh q" "cache h q \<noteq> []"
    and "gnext a (set_gen a (QueryIterReplay (cached_result (nodes h q)) 0) h) res"
  shows "gnext a h res"
proof -
  from assms(3) obtain n where
    "gen_next n a (set_gen a (QueryIterReplay (cached_result (nodes h q)) 0) h) = Some res"
    by (auto simp: gnext_def)
  then have "gen_next (Suc n) a h = Some res" using assms(1,2) by simp
  then show ?thesis unfolding gnext_def by blast
qed

lemma gnext_Replay_yield:
  "gens h a = QueryIterReplay c i \<Longrightarrow> i < length (lists h c)
   \<Longrightarrow> gnext a h (Yield (lists h c ! i), set_gen a (QueryIterReplay c (Suc i)) h)"
  unfolding gnext_def by (rule exI[of _ "Suc 0"]) simp

lemma gnext_Replay_stop:
  "gens h a = QueryIterReplay c i \<Longrightarrow> \<not> i < length (lists h c)
   \<Longrightarrow> gnext a h (Stop, set_gen a Finished h)"
  unfolding gnext_def by (rule exI[of _ "Suc 0"]) simp

lemma gnext_Walk:
  assumes "gens h a = QueryIterWalk q it" "inext it h (out, it1, h1)"
  shows "gnext a h (case out of
            Yield r \<Rightarrow> (Yield r, set_gen a (QueryIterWalk q it1) (cache_append q r h1))
          | Stop \<Rightarrow> (Stop, set_gen a Finished h1)
          | Raise e \<Rightarrow> (Raise e, set_gen a Finished h1))"
proof -
  from assms(2) obtain n where "iter_next (gen_next n) it h = Some (out, it1, h1)"
    by (auto simp: inext_def)
  then have "gen_next (Suc n) a h = Some (case out of
            Yield r \<Rightarrow> (Yield r, set_gen a (QueryIterWalk q it1) (cache_append q r h1))
          | Stop \<Rightarrow> (Stop, set_gen a Finished h1)
          | Raise e \<Rightarrow> (Raise e, set_gen a Finished h1))"
    using assms(1) by (cases out) simp_all
  then show ?thesis unfolding gnext_def by blast
qed

lemma gnext_GenExp_end:
  assumes "gens h a = GenExp k c it" "inext it h (out, it1, h1)" "out = Stop \<or> out = Raise e"
  shows "gnext a h (out, set_gen a Finished h1)"
proof -
  from assms(2) obtain n where "iter_next (gen_next n) it h = Some (out, it1, h1)"
    by (auto simp: inext_def)
  then have "gen_next (Suc n) a h = Some (out, set_gen a Finished h1)"
    using assms(1,3) by auto
  then show ?thesis unfolding gnext_def by blast
qed

lemma gnext_GenExp_raise:
  assumes "gens h a = GenExp k c it" "inext it h (Yield r, it1, h1)"
    "genexp_cond k (cells h1 c) r = Inl e"
  shows "gnext a h (Raise e, set_gen a Finished h1)"
proof -
  from assms(2) obtain n where "iter_next (gen_next n) it h = Some (Yield r, it1, h1)"
    by (auto simp: inext_def)
  then have "gen_next (Suc n) a h = Some (Raise e, set_gen a Finished h1)"
    using assms(1,3) by auto
  then show ?thesis unfolding gnext_def by blast
qed

lemma gnext_GenExp_yield:
  assumes "gens h a = GenExp k c it" "inext it h (Yield r, it1, h1)"
    "genexp_cond k (cells h1 c) r = Inr True"
  shows "gnext a h (Yield r, set_gen a (GenExp k c it1) h1)"
proof -
  from assms(2) obtain n where "iter_next (gen_next n) it h = Some (Yield r, it1, h1)"
    by (auto simp: inext_def)
  then have "gen_next (Suc n) a h = Some (Yield r, set_gen a (GenExp k c it1) h1)"
    using assms(1,3) by auto
  then show ?thesis unfolding gnext_def by blast
qed

lemma gnext_GenExp_drop:
  assumes "gens h a = GenExp k c it" "inext it h (Yield r, it1, h1)"
    "genexp_cond k (cells h1 c) r = Inr False"
    "gnext a (set_gen a (GenExp k c it1) h1) res"
  shows "gnext a h res"
proof -
  from assms(2) obtain n where n: "iter_next (gen_next n) it h = Some (Yield r, it1, h1)"
    by (auto simp: inext_def)
  from assms(4) obtain m where m: "gen_next m a (set_gen a (GenExp k c it1) h1) = Some res"
    by (auto simp: gnext_def)
  have it_mono: "iter_next (gen_next (max n m)) it h = Some (Yield r, it1, h1)"
    using n by (cases it) (auto simp: iter_next_def split: option.splits if_splits
        dest: gen_next_mono[where m="max n m"])
  have "gen_next (max n m) a (set_gen a (GenExp k c it1) h1) = Some res"
    using m by (rule gen_next_mono) simp
  then have "gen_next (Suc (max n m)) a h = Some res"
    using assms(1,3) it_mono by simp
  then show ?thesis unfolding gnext_def by blast
qed

section \<open>One element through the pipeline\<close>

lemma set_gen_simps [simp]:
  "nodes (set_gen a g h) = nodes h"
  "lists (set_gen a g h) = lists h"
  "cells (set_gen a g h) = cells h"
  "next_addr (set_gen a g h) = next_addr h"
  "gens (set_gen a g h) = (gens h)(a := g)"
  by (simp_all add: set_gen_def)

lemma cache_append_simps [simp]:
  "nodes (cache_append q r h) = nodes h"
  "gens (cache_append q r h) = gens h"
  "cells (cache_append q r h) = cells h"
  "next_addr (cache_append q r h) = next_addr h"
  "lists (cache_append q r h) =
     (lists h)(cached_result (nodes h q) := lists h (cached_result (nodes h q)) @ [r])"
  by (simp_all add: cache_append_def)

lemma caddrs_Cons_subset: "set (caddrs b) \<subseteq> set (caddrs (st # b))"
  by (cases st) auto

lemma agree_on_Cons: "agree_on (st # b) h h2 \<Longrightarrow> agree_on b h h2"
  using caddrs_Cons_subset[of b st] by (auto simp: agree_on_def)

lemma pipe_cong: "pipe h S pre b \<Longrightarrow> agree_on b h h2 \<Longrightarrow> pipe h2 S pre b"
proof (induction b)
  case Nil
  then show ?case by simp
next
  case (Cons st b)
  from Cons.prems(2) have ag: "agree_on b h h2" by (rule agree_on_Cons)
  from Cons.prems(1) have "pipe h S pre b" by simp
  with Cons.IH ag have 1: "pipe h2 S pre b" by simp
  from Cons.prems have 2: "stage_ok h2 st (src_iter S (length pre) b) (flow (cells h2) b pre)"
    by (cases st) (auto simp: agree_on_def)
  from 1 2 show ?case by simp
qed

lemma pipe_done_cong: "pipe_done h S b \<Longrightarrow> agree_on b h h2 \<Longrightarrow> pipe_done h2 S b"
proof (induction b)
  case Nil
  then show ?case by simp
next
  case (Cons st b)
  from Cons.prems(2) have ag: "agree_on b h h2" by (rule agree_on_Cons)
  from Cons.prems(1) have "pipe_done h S b" by simp
  with Cons.IH ag have 1: "pipe_done h2 S b" by simp
  from Cons.prems have 2: "stage_done h2 st (flow (cells h2) b S)"
    by (cases st) (auto simp: agree_on_def)
  from 1 2 show ?case by simp
qed

lemma frame_refl: "frame sts h h"
  by (simp add: frame_def)

lemma frame_trans: "frame sts h h1 \<Longrightarrow> frame sts h1 h2 \<Longrightarrow> frame sts h h2"
  by (simp add: frame_def)

lemma frame_Cons: "frame b h h1 \<Longrightarrow> frame (st # b) h h1"
  using caddrs_Cons_subset[of b st] by (auto simp: frame_def)

lemma frame_set_gen: "g \<in> gaddr ` set sts \<Longrightarrow> frame sts h (set_gen g x h)"
  by (auto simp: frame_def)

lemma flow_append: "flow cs b (xs @ ys) = flow cs b xs @ flow cs b ys"
  by (simp add: flow_def)

lemma flow_skipped: "\<forall>x\<in>set xs. push cs b x \<noteq> Inr True \<Longrightarrow> flow cs b xs = []"
  by (simp add: flow_def)

lemma flow_single: "flow cs b [y] = (if push cs b y = Inr True then [y] else [])"
  by (simp add: flow_def)

lemma step_post_skip:
  assumes "cells h2 = cells h" "frame sts h h2"
    and "\<forall>x\<in>set sk. push (cells h) sts x = Inr False"
    and "step_post S sts h2 (pre @ sk) rest r"
  shows "step_post S sts h pre (sk @ rest) r"
proof -
  let ?P = "\<lambda>x. push (cells h) sts x = Inr False"
  have d: "dropWhile ?P (sk @ rest) = dropWhile ?P rest"
    using assms(3) by (simp add: dropWhile_append2)
  have t: "takeWhile ?P (sk @ rest) = sk @ takeWhile ?P rest"
    using assms(3) by (simp add: takeWhile_append2)
  have l: "Suc (length (pre @ sk) + n) = Suc (length pre + length (sk @ ys))" if "length ys = n" for n ys
    using that by simp
  have fr: "frame sts h h'" if "frame sts h2 h'" for h'
    using assms(2) that by (rule frame_trans)
  show ?thesis
  proof (cases "dropWhile ?P rest")
    case Nil
    from assms(4) obtain h' where
      "r = (Stop, src_iter S (length S) sts, h')" "frame sts h2 h'" "pipe_done h' S sts"
      unfolding step_post_def assms(1) Nil by auto
    then show ?thesis
      unfolding step_post_def d Nil using fr by simp
  next
    case (Cons y ys)
    show ?thesis
    proof (cases "push (cells h) sts y")
      case (Inl e)
      from assms(4) obtain it h' where "r = (Raise e, it, h')"
        unfolding step_post_def assms(1) Cons using Inl by auto
      then show ?thesis
        unfolding step_post_def d Cons using Inl by simp
    next
      case (Inr bb)
      from assms(4) obtain h' where
        r: "r = (Yield y, src_iter S (Suc (length (pre @ sk) + length (takeWhile ?P rest))) sts, h')"
        and f: "frame sts h2 h'"
        and p: "pipe h' S ((pre @ sk) @ takeWhile ?P rest @ [y]) sts"
        unfolding step_post_def assms(1) Cons using Inr by auto
      have "step_post S sts h pre (sk @ rest) r"
        unfolding step_post_def d t Cons using Inr r fr[OF f] p by (simp add: add.assoc)
      then show ?thesis .
    qed
  qed
qed

lemma step_base:
  assumes "S = pre @ rem"
  shows "step_spec S [] h pre rem"
proof (cases rem)
  case Nil
  then have "inext (ListIter S (length pre)) h (Stop, ListIter S (length pre), h)"
    using assms by (intro inext_List_stop) simp
  then show ?thesis using Nil assms
    by (auto simp: step_spec_def step_post_def frame_refl)
next
  case (Cons y rest)
  then have "inext (ListIter S (length pre)) h (Yield (S ! length pre), ListIter S (Suc (length pre)), h)"
    using assms by (intro inext_List_yield) simp
  moreover have "S ! length pre = y" using Cons assms by simp
  ultimately show ?thesis using Cons
    by (auto simp: step_spec_def step_post_def frame_refl)
qed

lemma step_post_Nil:
  assumes "dropWhile (\<lambda>x. push (cells h) sts x = Inr False) rem = []"
  shows "step_post S sts h pre rem r =
     (\<exists>h'. r = (Stop, src_iter S (length S) sts, h') \<and> frame sts h h' \<and> pipe_done h' S sts)"
  unfolding step_post_def assms by simp

lemma step_post_Cons_Inl:
  assumes "dropWhile (\<lambda>x. push (cells h) sts x = Inr False) rem = y # rest"
    and "push (cells h) sts y = Inl e"
  shows "step_post S sts h pre rem r = (\<exists>it h'. r = (Raise e, it, h'))"
  unfolding step_post_def assms(1) using assms(2) by simp

lemma step_post_Cons_Inr:
  assumes "dropWhile (\<lambda>x. push (cells h) sts x = Inr False) rem = y # rest"
    and "push (cells h) sts y = Inr bb"
  shows "step_post S sts h pre rem r =
     (\<exists>h'. r = (Yield y,
                 src_iter S (Suc (length pre + length (takeWhile (\<lambda>x. push (cells h) sts x = Inr False) rem))) sts,
                 h') \<and>
           frame sts h h' \<and>
           pipe h' S (pre @ takeWhile (\<lambda>x. push (cells h) sts x = Inr False) rem @ [y]) sts)"
  unfolding step_post_def assms(1) using assms(2) by simp

lemma dropWhile_Cons_split:
  "dropWhile P xs = y # ys \<Longrightarrow> xs = takeWhile P xs @ y # ys \<and> \<not> P y"
  by (simp add: dropWhile_eq_Cons_conv)

lemma walker_step_walk:
  fixes h :: "'a heap"
  assumes IH: "\<And>(h::'a heap) pre rem. S = pre @ rem \<Longrightarrow> pipe h S pre b \<Longrightarrow> step_spec S b h pre rem"
    and wf: "wf_stages (Walker g q c # b)"
    and S: "S = pre @ rem"
    and p: "pipe h S pre (Walker g q c # b)"
    and w: "gens h g = QueryIterWalk q (src_iter S (length pre) b)"
  shows "step_spec S (Walker g q c # b) h pre rem"
proof -
  let ?P = "\<lambda>x. push (cells h) b x = Inr False"
  let ?W = "Walker g q c"
  from wf have gb: "g \<notin> gaddr ` set b" and cb: "c \<notin> set (caddrs b)"
    by (auto simp: wf_stages_def)
  from p have pb: "pipe h S pre b" and cq: "cached_result (nodes h q) = c"
    and lc: "lists h c = flow (cells h) b pre" by auto
  from IH[OF S pb] obtain r0 where i0: "inext (src_iter S (length pre) b) h r0"
    and sp: "step_post S b h pre rem r0" by (auto simp: step_spec_def)
  obtain out it1 h1 where r0: "r0 = (out, it1, h1)" by (cases r0)
  note gw = gnext_Walk[OF w i0[unfolded r0]]
  have PW: "(\<lambda>x. push (cells h) (?W # b) x = Inr False) = ?P" by simp
  show ?thesis
  proof (cases "dropWhile ?P rem")
    case Nil
    from sp[unfolded step_post_Nil[OF Nil]] r0
    have out: "out = Stop" and fr: "frame b h h1" and pd: "pipe_done h1 S b" by auto
    let ?h' = "set_gen g Finished h1"
    from gw out have "gnext g h (Stop, ?h')" by simp
    then have i: "inext (GenIter g) h (Stop, GenIter g, ?h')" by (rule inext_Gen)
    from Nil have "\<forall>x\<in>set rem. push (cells h) b x \<noteq> Inr True" by (auto simp: dropWhile_eq_Nil_conv)
    then have fl: "flow (cells h) b S = flow (cells h) b pre"
      unfolding S flow_append by (simp add: flow_skipped)
    have fr': "frame (?W # b) h ?h'"
      by (rule frame_trans[OF frame_Cons[OF fr]]) (rule frame_set_gen, simp)
    have "agree_on b h1 ?h'" using gb by (auto simp: agree_on_def)
    with pd have pd': "pipe_done ?h' S b" by (rule pipe_done_cong)
    have "lists h1 c = lists h c" using fr cb by (simp add: frame_def)
    moreover have "nodes h1 = nodes h" "cells h1 = cells h" using fr by (simp_all add: frame_def)
    ultimately have sd: "stage_done ?h' ?W (flow (cells ?h') b S)"
      using cq lc fl by simp
    have "step_post S (?W # b) h pre rem (Stop, GenIter g, ?h')"
      unfolding step_post_def PW Nil using fr' pd' sd by simp
    with i show ?thesis unfolding step_spec_def by (intro exI[of _ "(Stop, GenIter g, ?h')"]) simp
  next
    case (Cons y rest)
    note sp' = dropWhile_Cons_split[OF Cons]
    show ?thesis
    proof (cases "push (cells h) b y")
      case (Inl e)
      from sp[unfolded step_post_Cons_Inl[OF Cons Inl]] r0
      have out: "out = Raise e" by auto
      let ?h' = "set_gen g Finished h1"
      from gw out have "gnext g h (Raise e, ?h')" by simp
      then have i: "inext (GenIter g) h (Raise e, GenIter g, ?h')" by (rule inext_Gen)
      have "step_post S (?W # b) h pre rem (Raise e, GenIter g, ?h')"
        unfolding step_post_def PW Cons using Inl by simp
      with i show ?thesis unfolding step_spec_def by (intro exI[of _ "(Raise e, GenIter g, ?h')"]) simp
    next
      case (Inr bb)
      with sp' have py: "push (cells h) b y = Inr True" by simp
      let ?pre' = "pre @ takeWhile ?P rem @ [y]"
      let ?i' = "Suc (length pre + length (takeWhile ?P rem))"
      from sp[unfolded step_post_Cons_Inr[OF Cons Inr]] r0
      have out: "out = Yield y" and it1: "it1 = src_iter S ?i' b"
        and fr: "frame b h h1" and pb1: "pipe h1 S ?pre' b" by auto
      let ?h' = "set_gen g (QueryIterWalk q it1) (cache_append q y h1)"
      from gw out have "gnext g h (Yield y, ?h')" by simp
      then have i: "inext (GenIter g) h (Yield y, GenIter g, ?h')" by (rule inext_Gen)
      have n1: "nodes h1 = nodes h" "cells h1 = cells h" using fr by (simp_all add: frame_def)
      have l1: "lists h1 c = lists h c" using fr cb by (simp add: frame_def)
      have "\<forall>x\<in>set (takeWhile ?P rem). push (cells h) b x \<noteq> Inr True"
        by (auto dest: set_takeWhileD)
      then have fl: "flow (cells h) b ?pre' = flow (cells h) b pre @ [y]"
        unfolding flow_append using py by (simp add: flow_skipped flow_single)
      have fr': "frame (?W # b) h ?h'"
        using fr cq n1 caddrs_Cons_subset[of b ?W] by (auto simp: frame_def)
      have "agree_on b h1 ?h'" using gb cb cq n1 by (auto simp: agree_on_def)
      with pb1 have pb': "pipe ?h' S ?pre' b" by (rule pipe_cong)
      have so: "stage_ok ?h' ?W (src_iter S (length ?pre') b) (flow (cells ?h') b ?pre')"
        by (simp add: cq n1 l1 lc fl it1)
      have pp: "pipe ?h' S ?pre' (?W # b)"
        unfolding pipe.simps using so pb' by (intro conjI)
      have "step_post S (?W # b) h pre rem (Yield y, GenIter g, ?h')"
        unfolding step_post_def PW Cons using Inr fr' pp
        by (simp del: pipe.simps)
      with i show ?thesis unfolding step_spec_def by (intro exI[of _ "(Yield y, GenIter g, ?h')"]) simp
    qed
  qed
qed

lemma walker_step:
  fixes h :: "'a heap"
  assumes IH: "\<And>(h::'a heap) pre rem. S = pre @ rem \<Longrightarrow> pipe h S pre b \<Longrightarrow> step_spec S b h pre rem"
    and wf: "wf_stages (Walker g q c # b)"
    and S: "S = pre @ rem"
    and p: "pipe h S pre (Walker g q c # b)"
  shows "step_spec S (Walker g q c # b) h pre rem"
proof (cases "gens h g = QueryIterWalk q (src_iter S (length pre) b)")
  case True
  with IH wf S p show ?thesis by (rule walker_step_walk)
next
  case False
  let ?W = "Walker g q c"
  let ?it = "src_iter S (length pre) b"
  let ?h0 = "set_gen g (QueryIterWalk q ?it) h"
  from wf have gb: "g \<notin> gaddr ` set b" by (auto simp: wf_stages_def)
  from p False have fresh: "gens h g = QueryIterFresh q" and cq: "cached_result (nodes h q) = c"
    and lc: "lists h c = []" and fl: "flow (cells h) b pre = []"
    and st: "static_iter (own_result (nodes h q)) = Some ?it" and pb: "pipe h S pre b"
    by auto
  have "agree_on b h ?h0" using gb by (auto simp: agree_on_def)
  with pb have "pipe ?h0 S pre b" by (rule pipe_cong)
  then have p0: "pipe ?h0 S pre (?W # b)" using cq lc fl by simp
  have w0: "gens ?h0 g = QueryIterWalk q ?it" by simp
  from walker_step_walk[OF IH wf S p0 w0] obtain r where
    i: "inext (GenIter g) ?h0 r" and sp: "step_post S (?W # b) ?h0 pre rem r"
    by (auto simp: step_spec_def)
  from i obtain out h1 where r: "r = (out, GenIter g, h1)" and g0: "gnext g ?h0 (out, h1)"
    by (auto simp: inext_Gen_iff)
  have "cache h q = []" using cq lc by (simp add: cache_def)
  with fresh have "gnext g h (out, h1)" using st g0 by (rule gnext_Fresh_walk)
  then have i': "inext (GenIter g) h r" unfolding r by (rule inext_Gen)
  have "step_post S (?W # b) h pre ([] @ rem) r"
  proof (rule step_post_skip)
    show "cells ?h0 = cells h" by simp
    show "frame (?W # b) h ?h0" by (rule frame_set_gen) simp
    show "\<forall>x\<in>set []. push (cells h) (?W # b) x = Inr False" by simp
    show "step_post S (?W # b) ?h0 (pre @ []) rem r" using sp by simp
  qed
  with i' show ?thesis unfolding step_spec_def by (intro exI[of _ r]) simp
qed

lemma sieve_step:
  fixes h :: "'a heap"
  assumes IH: "\<And>(h::'a heap) pre rem. S = pre @ rem \<Longrightarrow> pipe h S pre b \<Longrightarrow> step_spec S b h pre rem"
    and wf: "wf_stages (Sieve g k c # b)"
    and S: "S = pre @ rem"
    and p: "pipe h S pre (Sieve g k c # b)"
  shows "step_spec S (Sieve g k c # b) h pre rem"
  using S p
proof (induction "length rem" arbitrary: h pre rem rule: less_induct)
  case less
  note S = less.prems(1) and p = less.prems(2)
  let ?V = "Sieve g k c"
  let ?P = "\<lambda>x. push (cells h) b x = Inr False"
  let ?Q = "\<lambda>x. push (cells h) (?V # b) x = Inr False"
  let ?it = "src_iter S (length pre) b"
  from wf have gb: "g \<notin> gaddr ` set b" by (auto simp: wf_stages_def)
  from p have ge: "gens h g = GenExp k c ?it" and pb: "pipe h S pre b" by auto
  from IH[OF S pb] obtain r0 where i0: "inext ?it h r0"
    and sp: "step_post S b h pre rem r0" by (auto simp: step_spec_def)
  obtain out it1 h1 where r0: "r0 = (out, it1, h1)" by (cases r0)
  have PQ: "?P x \<Longrightarrow> ?Q x" for x by simp
  show ?case
  proof (cases "dropWhile ?P rem")
    case Nil
    from sp[unfolded step_post_Nil[OF Nil]] r0
    have out: "out = Stop" and fr: "frame b h h1" and pd: "pipe_done h1 S b" by auto
    let ?h' = "set_gen g Finished h1"
    from gnext_GenExp_end[OF ge i0[unfolded r0], of undefined] out
    have "gnext g h (Stop, ?h')" by simp
    then have i: "inext (GenIter g) h (Stop, GenIter g, ?h')" by (rule inext_Gen)
    from Nil have "\<forall>x\<in>set rem. ?Q x" by (auto simp: dropWhile_eq_Nil_conv)
    then have NilQ: "dropWhile ?Q rem = []" by (simp add: dropWhile_eq_Nil_conv)
    have fr': "frame (?V # b) h ?h'"
      by (rule frame_trans[OF frame_Cons[OF fr]]) (rule frame_set_gen, simp)
    have "agree_on b h1 ?h'" using gb by (auto simp: agree_on_def)
    with pd have pd': "pipe_done ?h' S b" by (rule pipe_done_cong)
    have pdd: "pipe_done ?h' S (?V # b)" unfolding pipe_done.simps using pd' by simp
    have "step_post S (?V # b) h pre rem (Stop, GenIter g, ?h')"
      unfolding step_post_Nil[OF NilQ] using fr' pdd by (simp del: pipe_done.simps)
    with i show ?thesis unfolding step_spec_def by (intro exI[of _ "(Stop, GenIter g, ?h')"]) simp
  next
    case (Cons y rest)
    note sp' = dropWhile_Cons_split[OF Cons]
    let ?tw = "takeWhile ?P rem"
    have twQ: "\<forall>x\<in>set ?tw. ?Q x" by (auto dest: set_takeWhileD)
    have rem: "rem = ?tw @ y # rest" using sp' by simp
    show ?thesis
    proof (cases "push (cells h) b y")
      case (Inl e)
      from sp[unfolded step_post_Cons_Inl[OF Cons Inl]] r0
      have out: "out = Raise e" by auto
      let ?h' = "set_gen g Finished h1"
      from gnext_GenExp_end[OF ge i0[unfolded r0], of e] out
      have "gnext g h (Raise e, ?h')" by simp
      then have i: "inext (GenIter g) h (Raise e, GenIter g, ?h')" by (rule inext_Gen)
      have pq: "push (cells h) (?V # b) y = Inl e" using Inl by simp
      then have "\<not> ?Q y" by simp
      then have ConsQ: "dropWhile ?Q rem = y # rest"
        using twQ by (subst rem) (simp add: dropWhile_append2)
      have "step_post S (?V # b) h pre rem (Raise e, GenIter g, ?h')"
        unfolding step_post_Cons_Inl[OF ConsQ pq] by simp
      with i show ?thesis unfolding step_spec_def by (intro exI[of _ "(Raise e, GenIter g, ?h')"]) simp
    next
      case (Inr bb)
      with sp' have py: "push (cells h) b y = Inr True" by simp
      let ?pre' = "pre @ ?tw @ [y]"
      let ?i' = "Suc (length pre + length ?tw)"
      from sp[unfolded step_post_Cons_Inr[OF Cons Inr]] r0
      have out: "out = Yield y" and it1: "it1 = src_iter S ?i' b"
        and fr: "frame b h h1" and pb1: "pipe h1 S ?pre' b" by auto
      have c1: "cells h1 = cells h" using fr by (simp add: frame_def)
      note i1 = i0[unfolded r0 out]
      show ?thesis
      proof (cases "genexp_cond k (cells h c) y")
        case (Inl e)
        let ?h' = "set_gen g Finished h1"
        from gnext_GenExp_raise[OF ge i1] Inl c1
        have "gnext g h (Raise e, ?h')" by simp
        then have i: "inext (GenIter g) h (Raise e, GenIter g, ?h')" by (rule inext_Gen)
        have pq: "push (cells h) (?V # b) y = Inl e" using py Inl by simp
        then have "\<not> ?Q y" by simp
        then have ConsQ: "dropWhile ?Q rem = y # rest"
          using twQ by (subst rem) (simp add: dropWhile_append2)
        have "step_post S (?V # b) h pre rem (Raise e, GenIter g, ?h')"
          unfolding step_post_Cons_Inl[OF ConsQ pq] by simp
        with i show ?thesis unfolding step_spec_def by (intro exI[of _ "(Raise e, GenIter g, ?h')"]) simp
      next
        case (Inr keep)
        let ?h2 = "set_gen g (GenExp k c it1) h1"
        have fr2: "frame (?V # b) h ?h2"
          by (rule frame_trans[OF frame_Cons[OF fr]]) (rule frame_set_gen, simp)
        have "agree_on b h1 ?h2" using gb by (auto simp: agree_on_def)
        with pb1 have pb2: "pipe ?h2 S ?pre' b" by (rule pipe_cong)
        have p2: "pipe ?h2 S ?pre' (?V # b)"
          unfolding pipe.simps using pb2 it1 by simp
        show ?thesis
        proof (cases keep)
          case True
          with Inr c1 have "genexp_cond k (cells h1 c) y = Inr True" by simp
          from gnext_GenExp_yield[OF ge i1 this]
          have "gnext g h (Yield y, ?h2)" .
          then have i: "inext (GenIter g) h (Yield y, GenIter g, ?h2)" by (rule inext_Gen)
          have pq: "push (cells h) (?V # b) y = Inr True" using py Inr True by simp
          then have "\<not> ?Q y" by simp
          then have ConsQ: "dropWhile ?Q rem = y # rest" and twQ': "takeWhile ?Q rem = ?tw"
            using twQ by (subst rem, simp add: dropWhile_append2 takeWhile_append2)+
          have "step_post S (?V # b) h pre rem (Yield y, GenIter g, ?h2)"
            unfolding step_post_Cons_Inr[OF ConsQ pq] twQ' using fr2 p2
            by (simp del: pipe.simps)
          with i show ?thesis unfolding step_spec_def
            by (intro exI[of _ "(Yield y, GenIter g, ?h2)"]) simp
        next
          case False
          with Inr c1 have cf: "genexp_cond k (cells h1 c) y = Inr False" by simp
          have qy: "?Q y" using py Inr False by simp
          have S2: "S = ?pre' @ rest" using S rem by simp
          have "length rem = length (?tw @ y # rest)" using rem by simp
          then have "length rest < length rem" by simp
          from less.hyps[OF this S2 p2] obtain r where
            i: "inext (GenIter g) ?h2 r" and sp2: "step_post S (?V # b) ?h2 ?pre' rest r"
            by (auto simp: step_spec_def)
          from i obtain out2 h3 where r: "r = (out2, GenIter g, h3)" and g2: "gnext g ?h2 (out2, h3)"
            by (auto simp: inext_Gen_iff)
          from gnext_GenExp_drop[OF ge i1 cf g2] have "gnext g h (out2, h3)" .
          then have i': "inext (GenIter g) h r" unfolding r by (rule inext_Gen)
          have "step_post S (?V # b) h pre ((?tw @ [y]) @ rest) r"
          proof (rule step_post_skip)
            show "cells ?h2 = cells h" using c1 by simp
            show "frame (?V # b) h ?h2" by (rule fr2)
            show "\<forall>x\<in>set (?tw @ [y]). ?Q x" using twQ qy by simp
            show "step_post S (?V # b) ?h2 (pre @ ?tw @ [y]) rest r" using sp2 by simp
          qed
          then have "step_post S (?V # b) h pre rem r" using rem by simp
          with i' show ?thesis unfolding step_spec_def by (intro exI[of _ r]) simp
        qed
      qed
    qed
  qed
qed

lemma wf_stages_Cons: "wf_stages (st # b) \<Longrightarrow> wf_stages b"
  by (cases st) (auto simp: wf_stages_def)

lemma pipeline_step:
  fixes h :: "'a heap"
  shows "wf_stages sts \<Longrightarrow> S = pre @ rem \<Longrightarrow> pipe h S pre sts \<Longrightarrow> step_spec S sts h pre rem"
proof (induction sts arbitrary: h pre rem)
  case Nil
  then show ?case by (simp add: step_base)
next
  case (Cons st b)
  from Cons.prems(1) have wfb: "wf_stages b" by (rule wf_stages_Cons)
  show ?case
  proof (cases st)
    case (Walker g q c)
    show ?thesis unfolding Walker
      by (rule walker_step[OF Cons.IH[OF wfb] Cons.prems(1)[unfolded Walker] Cons.prems(2)
            Cons.prems(3)[unfolded Walker]])
  next
    case (Sieve g k c)
    show ?thesis unfolding Sieve
      by (rule sieve_step[OF Cons.IH[OF wfb] Cons.prems(1)[unfolded Sieve] Cons.prems(2)
            Cons.prems(3)[unfolded Sieve]])
  qed
qed

section \<open>Iterating to the end, and replay from the cache\<close>

lemma drain_mono: "drain n g acc (h::'a heap) = Some r \<Longrightarrow> n \<le> m \<Longrightarrow> drain m g acc h = Some r"
proof (induction n arbitrary: m acc h)
  case 0
  then show ?case by simp
next
  case (Suc n)
  then obtain m' where m: "m = Suc m'" "n \<le> m'" by (cases m) auto
  from Suc.prems(1) obtain out h1 where g: "gen_next n g h = Some (out, h1)"
    by (cases "gen_next n g h") auto
  then have g': "gen_next m' g h = Some (out, h1)" using m(2) by (rule gen_next_mono)
  show ?case
  proof (cases out)
    case (Yield x)
    with Suc.prems(1) g have "drain n g (acc @ [x]) h1 = Some r" by simp
    then have "drain m' g (acc @ [x]) h1 = Some r" using m(2) by (rule Suc.IH)
    then show ?thesis unfolding m(1) using g' Yield by simp
  next
    case Stop
    with Suc.prems(1) g g' show ?thesis unfolding m(1) by simp
  next
    case (Raise e)
    with Suc.prems(1) g g' show ?thesis unfolding m(1) by simp
  qed
qed

lemma drained_stop: "gnext g h (Stop, h1) \<Longrightarrow> drained g acc h (Inr acc, h1)"
proof -
  assume "gnext g h (Stop, h1)"
  then obtain n where "gen_next n g h = Some (Stop, h1)" by (auto simp: gnext_def)
  then have "drain (Suc n) g acc h = Some (Inr acc, h1)" by simp
  then show ?thesis unfolding drained_def by blast
qed

lemma drained_raise: "gnext g h (Raise e, h1) \<Longrightarrow> drained g acc h (Inl e, h1)"
proof -
  assume "gnext g h (Raise e, h1)"
  then obtain n where "gen_next n g h = Some (Raise e, h1)" by (auto simp: gnext_def)
  then have "drain (Suc n) g acc h = Some (Inl e, h1)" by simp
  then show ?thesis unfolding drained_def by blast
qed

lemma drained_yield:
  assumes "gnext g h (Yield r, h1)" "drained g (acc @ [r]) h1 res"
  shows "drained g acc h res"
proof -
  from assms(1) obtain n where "gen_next n g h = Some (Yield r, h1)" by (auto simp: gnext_def)
  then have n: "gen_next (max n m) g h = Some (Yield r, h1)" for m
    by (rule gen_next_mono) simp
  from assms(2) obtain m where "drain m g (acc @ [r]) h1 = Some res" by (auto simp: drained_def)
  then have "drain (max n m) g (acc @ [r]) h1 = Some res" by (rule drain_mono) simp
  with n[of m] have "drain (Suc (max n m)) g acc h = Some res" by simp
  then show ?thesis unfolding drained_def by blast
qed

lemma run_skipped: "\<forall>x\<in>set sk. push cs sts x = Inr False \<Longrightarrow> run cs sts (sk @ xs) = run cs sts xs"
  by (induction sk) (auto split: sum.splits)

lemma with_acc_run_Cons:
  "push cs sts y = Inr True \<Longrightarrow>
   with_acc acc (run cs sts (y # rest)) = with_acc (acc @ [y]) (run cs sts rest)"
  by (cases "run cs sts rest") auto

lemma drain_pipe:
  fixes h :: "'a heap"
  assumes wf: "wf_stages (st # b)"
  shows "S = pre @ rem \<Longrightarrow> pipe h S pre (st # b) \<Longrightarrow>
    \<exists>h'. drained (gaddr st) acc h (with_acc acc (run (cells h) (st # b) rem), h') \<and>
         (\<forall>ys. run (cells h) (st # b) rem = Inr ys \<longrightarrow> frame (st # b) h h' \<and> pipe_done h' S (st # b))"
proof (induction "length rem" arbitrary: h pre rem acc rule: less_induct)
  case less
  note S = less.prems(1) and p = less.prems(2)
  let ?sts = "st # b"
  let ?g = "gaddr st"
  let ?P = "\<lambda>x. push (cells h) ?sts x = Inr False"
  from pipeline_step[OF wf S p] obtain r where i: "inext (GenIter ?g) h r"
    and sp: "step_post S ?sts h pre rem r" by (auto simp: step_spec_def)
  from i obtain out h1 where r: "r = (out, GenIter ?g, h1)" and g: "gnext ?g h (out, h1)"
    by (auto simp: inext_Gen_iff)
  show ?case
  proof (cases "dropWhile ?P rem")
    case Nil
    from sp[unfolded step_post_Nil[OF Nil]] r
    have out: "out = Stop" and fr: "frame ?sts h h1" and pd: "pipe_done h1 S ?sts" by auto
    from Nil have "\<forall>x\<in>set rem. ?P x" by (simp add: dropWhile_eq_Nil_conv)
    from run_skipped[OF this, of "[]"] have rn: "run (cells h) ?sts rem = Inr []" by simp
    from g out have "drained ?g acc h (Inr acc, h1)" by (simp add: drained_stop)
    then show ?thesis using rn fr pd by (intro exI[of _ h1]) simp
  next
    case (Cons y rest)
    note sp' = dropWhile_Cons_split[OF Cons]
    let ?tw = "takeWhile ?P rem"
    have tw: "\<forall>x\<in>set ?tw. ?P x" by (auto dest: set_takeWhileD)
    have rem: "rem = ?tw @ y # rest" using sp' by simp
    have rn: "run (cells h) ?sts rem = run (cells h) ?sts (y # rest)"
      using run_skipped[OF tw, of "y # rest"] rem by simp
    show ?thesis
    proof (cases "push (cells h) ?sts y")
      case (Inl e)
      from sp[unfolded step_post_Cons_Inl[OF Cons Inl]] r
      have out: "out = Raise e" by auto
      from g out have "drained ?g acc h (Inl e, h1)" by (simp add: drained_raise)
      moreover have "run (cells h) ?sts rem = Inl e" unfolding rn using Inl by simp
      ultimately show ?thesis by (intro exI[of _ h1]) simp
    next
      case (Inr bb)
      with sp' have py: "push (cells h) ?sts y = Inr True" by simp
      let ?pre' = "pre @ ?tw @ [y]"
      from sp[unfolded step_post_Cons_Inr[OF Cons Inr]] r
      have out: "out = Yield y" and fr: "frame ?sts h h1" and p1: "pipe h1 S ?pre' ?sts" by auto
      have c1: "cells h1 = cells h" using fr by (simp add: frame_def)
      have S2: "S = ?pre' @ rest" using S rem by simp
      have "length rem = length (?tw @ y # rest)" using rem by simp
      then have "length rest < length rem" by simp
      from less.hyps[OF this S2 p1, of "acc @ [y]"] obtain h' where
        d: "drained ?g (acc @ [y]) h1 (with_acc (acc @ [y]) (run (cells h) ?sts rest), h')"
        and post: "\<forall>ys. run (cells h) ?sts rest = Inr ys \<longrightarrow> frame ?sts h1 h' \<and> pipe_done h' S ?sts"
        unfolding c1 by blast
      from g out have "gnext ?g h (Yield y, h1)" by simp
      from drained_yield[OF this d]
      have "drained ?g acc h (with_acc acc (run (cells h) ?sts rem), h')"
        unfolding rn with_acc_run_Cons[OF py] .
      moreover have "frame ?sts h h' \<and> pipe_done h' S ?sts" if "run (cells h) ?sts rem = Inr ys" for ys
      proof -
        from that obtain zs where "run (cells h) ?sts rest = Inr zs"
          unfolding rn using py by (auto split: sum.splits)
        with post have "frame ?sts h1 h'" "pipe_done h' S ?sts" by auto
        with fr show ?thesis by (auto intro: frame_trans)
      qed
      ultimately show ?thesis by (intro exI[of _ h']) blast
    qed
  qed
qed

lemma set_gen_set_gen [simp]: "set_gen a x (set_gen a y h) = set_gen a x h"
  by (simp add: set_gen_def)

lemma replay_drain:
  fixes h :: "'a heap"
  shows "gens h g = QueryIterReplay cl i \<Longrightarrow>
    drained g acc h (Inr (acc @ drop i (lists h cl)), set_gen g Finished h)"
proof (induction "length (lists h cl) - i" arbitrary: i acc h)
  case 0
  then have "\<not> i < length (lists h cl)" by simp
  with 0 show ?case by (auto intro!: drained_stop gnext_Replay_stop)
next
  case (Suc d)
  then have lt: "i < length (lists h cl)" by simp
  let ?h1 = "set_gen g (QueryIterReplay cl (Suc i)) h"
  from Suc.prems lt have g: "gnext g h (Yield (lists h cl ! i), ?h1)" by (rule gnext_Replay_yield)
  have "d = length (lists ?h1 cl) - Suc i" using Suc.hyps(2) by simp
  from Suc.hyps(1)[OF this, of "acc @ [lists h cl ! i]"]
  have "drained g (acc @ [lists h cl ! i]) ?h1
          (Inr ((acc @ [lists h cl ! i]) @ drop (Suc i) (lists h cl)), set_gen g Finished h)"
    by simp
  with g have "drained g acc h
          (Inr ((acc @ [lists h cl ! i]) @ drop (Suc i) (lists h cl)), set_gen g Finished h)"
    by (rule drained_yield)
  then show ?case using lt by (simp add: Cons_nth_drop_Suc)
qed

lemma drained_Fresh_replay:
  assumes "gens h g = QueryIterFresh q" "cache h q \<noteq> []"
    and "drained g acc (set_gen g (QueryIterReplay (cached_result (nodes h q)) 0) h) res"
  shows "drained g acc h res"
proof -
  let ?h0 = "set_gen g (QueryIterReplay (cached_result (nodes h q)) 0) h"
  from assms(3) obtain n where n: "drain n g acc ?h0 = Some res" by (auto simp: drained_def)
  then obtain m where m: "n = Suc m" by (cases n) auto
  have "gen_next (Suc m) g h = gen_next m g ?h0" using assms(1,2) by simp
  moreover from n m obtain r where r: "gen_next m g ?h0 = Some r"
    by (cases "gen_next m g ?h0") auto
  ultimately have e: "gen_next (Suc m) g h = Some r" by simp
  have "drain (Suc (Suc m)) g acc h = Some res"
  proof (cases r)
    case (Pair out h1)
    show ?thesis
    proof (cases out)
      case (Yield x)
      with n m r Pair have "drain m g (acc @ [x]) h1 = Some res" by simp
      then have "drain (Suc m) g (acc @ [x]) h1 = Some res" by (rule drain_mono) simp
      then show ?thesis using e Pair Yield by simp
    next
      case Stop
      with n m r Pair e show ?thesis by simp
    next
      case (Raise x)
      with n m r Pair e show ?thesis by simp
    qed
  qed
  then show ?thesis unfolding drained_def by blast
qed

lemma replay_list:
  fixes h :: "'a heap"
  assumes "cache h q \<noteq> []"
  shows "\<exists>n. py_list n q h =
           Some (Inr (cache h q), h\<lparr>gens := (gens h)(next_addr h := Finished), next_addr := Suc (next_addr h)\<rparr>)"
proof -
  let ?g = "next_addr h"
  let ?h1 = "h\<lparr>gens := (gens h)(?g := QueryIterFresh q), next_addr := Suc ?g\<rparr>"
  let ?cl = "cached_result (nodes h q)"
  let ?h0 = "set_gen ?g (QueryIterReplay (cached_result (nodes ?h1 q)) 0) ?h1"
  have f: "gens ?h1 ?g = QueryIterFresh q" by simp
  have c: "cache ?h1 q \<noteq> []" using assms by (simp add: cache_def)
  have "gens ?h0 ?g = QueryIterReplay ?cl 0" by simp
  from replay_drain[OF this, of "[]"]
  have "drained ?g [] ?h0 (Inr (lists h ?cl), set_gen ?g Finished ?h0)" by simp
  with f c have "drained ?g [] ?h1 (Inr (lists h ?cl), set_gen ?g Finished ?h0)"
    by (rule drained_Fresh_replay)
  then have d: "drained ?g [] ?h1 (Inr (lists h ?cl), set_gen ?g Finished ?h0)" .
  have e: "set_gen ?g Finished ?h0 =
      h\<lparr>gens := (gens h)(?g := Finished), next_addr := Suc ?g\<rparr>"
    by (simp add: set_gen_def)
  from d have "drained ?g [] ?h1 (Inr (cache h q),
      h\<lparr>gens := (gens h)(?g := Finished), next_addr := Suc ?g\<rparr>)"
    unfolding e cache_def .
  then show ?thesis
    unfolding drained_def py_list_def Query_iter_def new_gen_def by simp
qed

section \<open>The loops of a transform, and what their sieves decide\<close>

lemma extends_refl: "extends h h"
  by (simp add: extends_def)

lemma extends_trans: "extends h h1 \<Longrightarrow> extends h1 h2 \<Longrightarrow> extends h h2"
  by (auto simp: extends_def)

lemma flow_Nil [simp]: "flow cs b [] = []"
  by (simp add: flow_def)

lemma set_cell_simps [simp]:
  "nodes (set_cell c v h) = nodes h"
  "lists (set_cell c v h) = lists h"
  "gens (set_cell c v h) = gens h"
  "next_addr (set_cell c v h) = next_addr h"
  "cells (set_cell c v h) = (cells h)(c := Some v)"
  by (simp_all add: set_cell_def)

lemma and_then_simps [simp]:
  "and_then (Inl e) s = Inl e"
  "and_then (Inr False) s = Inr False"
  "and_then (Inr True) s = s"
  by (simp_all add: and_then_def)

lemma and_then_True [simp]: "and_then r (Inr True) = r"
  by (cases r) (auto simp: and_then_def split: bool.splits)

lemma and_then_assoc: "and_then (and_then a b) c = and_then a (and_then b c)"
  by (cases a) (auto simp: and_then_def split: bool.splits)

lemma push_Sieve: "push cs (Sieve g k c # b) x = and_then (push cs b x) (genexp_cond k (cs c) x)"
  by (simp add: and_then_def)

lemma conds_test_append:
  "conds_test (ks @ ls) v x = and_then (conds_test ks v x) (conds_test ls v x)"
  by (induction ks) (simp_all add: and_then_assoc)

lemma push_sieves:
  "push cs (map (\<lambda>g. Sieve g k cell) gs @ rest) x =
     and_then (push cs rest x) (conds_test (replicate (length gs) k) (cs cell) x)"
proof (induction gs)
  case Nil
  then show ?case by simp
next
  case (Cons g gs)
  have "conds_test (replicate (Suc (length gs)) k) (cs cell) x =
        conds_test (replicate (length gs) k @ [k]) (cs cell) x"
    by (simp add: replicate_append_same)
  also have "\<dots> = and_then (conds_test (replicate (length gs) k) (cs cell) x) (genexp_cond k (cs cell) x)"
    by (simp add: conds_test_append)
  finally show ?case using Cons
    by (simp add: push_Sieve and_then_assoc del: push.simps replicate.simps)
qed

lemma wrap_loop_not_None: "res \<noteq> RNone \<Longrightarrow> fst (wrap_loop k c vs res h) \<noteq> RNone"
proof (induction vs arbitrary: res h)
  case Nil
  then show ?case by simp
next
  case (Cons v vs)
  then show ?case
    by (cases res) (auto simp: new_gen_def Query_iter_def split: prod.splits)
qed

lemma exclude_loop_wrap:
  "res \<noteq> RNone \<Longrightarrow> exclude_loop c vs res h = Inr (wrap_loop NotEqual c vs res h)"
proof (induction vs arbitrary: res h)
  case Nil
  then show ?case by simp
next
  case (Cons v vs)
  then show ?case
    by (cases res) (auto simp: new_gen_def Query_iter_def split: prod.splits)
qed

lemma filter_loop_wrap:
  "res \<noteq> RNone \<Longrightarrow> filter_loop c vs res h = Inr r \<Longrightarrow> r = wrap_loop Call c vs res h"
proof (induction vs arbitrary: res h)
  case Nil
  then show ?case by simp
next
  case (Cons v vs)
  then show ?case
    by (cases res) (auto simp: new_gen_def Query_iter_def split: prod.splits if_splits)
qed

lemma wrap_loop_query_unfold:
  "wrap_loop k cell (v # vs) (RQuery q) h =
   wrap_loop k cell (v # vs) (RGen (next_addr h))
     (h\<lparr>gens := (gens h)(next_addr h := QueryIterFresh q), next_addr := Suc (next_addr h)\<rparr>)"
  by (simp add: Query_iter_def new_gen_def set_cell_def)

lemma naddrs_sieves [simp]: "naddrs (map (\<lambda>g. Sieve g k cell) gs @ rest) = naddrs rest"
  by (induction gs) simp_all

lemma caddrs_sieves [simp]: "caddrs (map (\<lambda>g. Sieve g k cell) gs @ rest) = caddrs rest"
  by (induction gs) simp_all

lemma transform_fn_loops:
  assumes "transform_fn tr (RQuery q) args kwargs h = Inr (res, h')"
  shows "\<exists>r1 h1.
     wrap_loop (first_kind tr) (next_addr h) args (RQuery q)
       (h\<lparr>cells := (cells h)(next_addr h := None), next_addr := Suc (next_addr h)\<rparr>) = (r1, h1) \<and>
     wrap_loop Call (next_addr h) (map snd kwargs) r1 h1 = (res, h')"
proof -
  let ?c = "next_addr h"
  let ?h0 = "h\<lparr>cells := (cells h)(?c := None), next_addr := Suc ?c\<rparr>"
  obtain r1 h1 where w: "wrap_loop (first_kind tr) ?c args (RQuery q) ?h0 = (r1, h1)"
    by (cases "wrap_loop (first_kind tr) ?c args (RQuery q) ?h0")
  from wrap_loop_not_None[of "RQuery q" "first_kind tr" ?c args ?h0] w
  have r1: "r1 \<noteq> RNone" by simp
  have first: "(case tr of Filter \<Rightarrow> filter_loop ?c args (RQuery q) ?h0
                | Exclude \<Rightarrow> exclude_loop ?c args (RQuery q) ?h0) = Inr (r1, h1)"
  proof (cases tr)
    case Filter
    with assms obtain x where x: "filter_loop ?c args (RQuery q) ?h0 = Inr x"
      by (auto simp: filter_py_def new_cell_def split: sum.splits)
    from filter_loop_wrap[OF _ x] w Filter have "x = (r1, h1)" by simp
    with x Filter show ?thesis by simp
  next
    case Exclude
    with w exclude_loop_wrap[of "RQuery q" ?c args ?h0] show ?thesis by simp
  qed
  with assms have "filter_loop ?c (map snd kwargs) r1 h1 = Inr (res, h')"
    by (cases tr) (auto simp: filter_py_def exclude_py_def new_cell_def)
  from filter_loop_wrap[OF r1 this] have "wrap_loop Call ?c (map snd kwargs) r1 h1 = (res, h')"
    by simp
  with w show ?thesis by blast
qed

lemma Query_new_eq:
  "Query_new acts p h =
     (Suc (next_addr h),
      h\<lparr>lists := (lists h)(next_addr h := []),
        nodes := (nodes h)(Suc (next_addr h) :=
                   \<lparr>own_result = RNone, cached_result = next_addr h, parent = p, actions = acts\<rparr>),
        next_addr := Suc (Suc (next_addr h))\<rparr>)"
  by (simp add: Query_new_def new_list_def)

lemma transform_name_inj: "transform_name f = transform_name f' \<Longrightarrow> f = f'"
  by (cases f; cases f') simp_all

lemma call_method_queryable:
  assumes "acts_ok (actions (nodes h q))" "call_method q (transform_name f) args kwargs h = Inr r"
  shows "queryable f q args kwargs h = Inr r"
proof -
  from assms(2) obtain f' where f': "actions (nodes h q) (transform_name f) = Some f'"
    and r: "queryable f' q args kwargs h = Inr r"
    by (auto simp: call_method_def Query_getattr_def split: option.splits)
  from assms(1) f' have "transform_name f' = transform_name f" by (simp add: acts_ok_def)
  then have "f' = f" by (rule transform_name_inj)
  with r show ?thesis by simp
qed

lemma acts_ok_actions_of: "acts_ok (actions_of regs)"
  unfolding acts_ok_def actions_of_def by (auto dest!: map_of_SomeD)

lemma run_Walker: "run cs (Walker g q c # sts) xs = run cs sts xs"
  by (induction xs) (auto split: sum.splits)

lemma with_acc_Nil [simp]: "with_acc [] r = r"
  by (cases r) simp_all

lemma pipe_done_append: "pipe_done h S (a @ b) \<Longrightarrow> pipe_done h S b"
  by (induction a) simp_all

lemma pipe_done_tracked:
  assumes "pipe_done h S sts" "tracked h sts q T"
  shows "cache h q = filter (\<lambda>x. T x = Inr True) S"
proof -
  from assms(2) obtain a g c b where sts: "sts = a @ Walker g q c # b"
    and p: "\<forall>x. push (cells h) b x = T x" by (auto simp: tracked_def)
  from assms(1) sts have "pipe_done h S (Walker g q c # b)" by (auto dest: pipe_done_append)
  then show ?thesis using p by (simp add: cache_def flow_def)
qed

lemma run_filter_run: "\<forall>x. push cs sts x = T x \<Longrightarrow> run cs sts xs = filter_run T xs"
  by (induction xs) (auto split: sum.splits)

lemma filter_run_no_error:
  "\<forall>x\<in>set xs. \<forall>e. T x \<noteq> Inl e \<Longrightarrow> filter_run T xs = Inr (filter (\<lambda>x. T x = Inr True) xs)"
proof (induction xs)
  case Nil
  then show ?case by simp
next
  case (Cons x xs)
  then obtain keep where "T x = Inr keep" by (cases "T x") auto
  with Cons show ?case by simp
qed


section \<open>The first next: all walkers start\<close>

lemma start_walk_simps [simp]:
  "nodes (start_walk g q h) = nodes h"
  "lists (start_walk g q h) = lists h"
  "cells (start_walk g q h) = cells h"
  by (cases "own_result (nodes h q)"; simp add: start_walk_def Query_iter_def new_gen_def)+

lemma start_walk_next_addr: "next_addr h \<le> next_addr (start_walk g q h)"
  by (cases "own_result (nodes h q)"; simp add: start_walk_def Query_iter_def new_gen_def)

lemma start_walk_gens: "x \<noteq> g \<Longrightarrow> x < next_addr h \<Longrightarrow> gens (start_walk g q h) x = gens h x"
  by (cases "own_result (nodes h q)"; simp add: start_walk_def Query_iter_def new_gen_def)

lemma start_walk_reads:
  assumes "own_result (nodes h q) = reads S b" "g < next_addr h"
  shows "gens (start_walk g q h) g = QueryIterWalk q (src_iter S 0 (fst (activate (next_addr h) b (start_walk g q h))))"
    and "top_ready (next_addr h) (start_walk g q h) b \<or> (\<exists>p c b'. b = Pending p c # b' \<and> next_addr h \<in> set (made_gaddrs b'))"
proof -
  show "gens (start_walk g q h) g = QueryIterWalk q (src_iter S 0 (fst (activate (next_addr h) b (start_walk g q h))))"
  proof (cases b)
    case Nil
    with assms show ?thesis by (simp add: start_walk_def)
  next
    case (Cons v b')
    show ?thesis
    proof (cases v)
      case (Made st)
      with Cons assms show ?thesis
        by (cases st) (simp_all add: start_walk_def split: prod.splits)
    next
      case (Pending p c)
      with Cons assms show ?thesis
        by (simp add: start_walk_def Query_iter_def new_gen_def split: prod.splits)
    qed
  qed
  show "top_ready (next_addr h) (start_walk g q h) b \<or> (\<exists>p c b'. b = Pending p c # b' \<and> next_addr h \<in> set (made_gaddrs b'))"
  proof (cases b)
    case Nil
    then show ?thesis by simp
  next
    case (Cons v b')
    show ?thesis
    proof (cases v)
      case (Made st)
      with Cons show ?thesis by simp
    next
      case (Pending p c)
      with Cons assms show ?thesis
        by (auto simp: start_walk_def Query_iter_def new_gen_def)
    qed
  qed
qed

lemma activate_frame:
  fixes h :: "'a heap"
  shows "activate a col h = (sts, hA) \<Longrightarrow>
    nodes hA = nodes h \<and> lists hA = lists h \<and> cells hA = cells h \<and> next_addr h \<le> next_addr hA \<and>
    list_all2 covers sts col \<and>
    (\<forall>x. x \<notin> gaddr ` set sts \<longrightarrow> x < next_addr h \<longrightarrow> gens hA x = gens h x) \<and>
    (\<forall>x\<in>gaddr ` set sts. x \<in> set (made_gaddrs col) \<or> (x = a \<and> pending_top col) \<or> next_addr h \<le> x) \<and>
    (col \<noteq> [] \<longrightarrow> gaddr (hd sts) = top_gen a col)"
proof (induction col arbitrary: a h sts hA)
  case Nil
  then show ?case by simp
next
  case (Cons v b)
  show ?case
  proof (cases v)
    case (Made st)
    show ?thesis
    proof (cases st)
      case (Sieve g k c)
      with Made Cons.prems obtain sb where a: "activate (next_addr h) b h = (sb, hA)"
        and sts: "sts = Sieve g k c # sb"
        by (auto split: prod.splits)
      from Cons.IH[OF a] show ?thesis unfolding sts Made Sieve by auto
    next
      case (Walker g q c)
      with Made Cons.prems obtain sb where a: "activate (next_addr h) b (start_walk g q h) = (sb, hA)"
        and sts: "sts = Walker g q c # sb"
        by (auto split: prod.splits)
      note ih = Cons.IH[OF a]
      note le = start_walk_next_addr[of h g q]
      have g: "gens hA x = gens h x" if "x \<notin> gaddr ` set sts" "x < next_addr h" for x
      proof -
        from that sts have "x \<notin> gaddr ` set sb" "x \<noteq> g" by auto
        with ih that(2) le have "gens hA x = gens (start_walk g q h) x" by auto
        with \<open>x \<noteq> g\<close> that(2) show ?thesis by (simp add: start_walk_gens)
      qed
      have m: "x \<in> set (made_gaddrs (v # b)) \<or> (x = a \<and> pending_top (v # b)) \<or> next_addr h \<le> x"
        if "x \<in> gaddr ` set sts" for x
      proof (cases "x = g")
        case True
        then show ?thesis unfolding Made Walker by simp
      next
        case False
        with that sts have "x \<in> gaddr ` set sb" by auto
        with ih have "x \<in> set (made_gaddrs b) \<or> x = next_addr h \<or> next_addr (start_walk g q h) \<le> x" by blast
        with le show ?thesis unfolding Made by auto
      qed
      from ih le g m show ?thesis unfolding sts Made Walker by auto
    qed
  next
    case (Pending q c)
    with Cons.prems obtain sb where a: "activate (next_addr h) b (start_walk a q h) = (sb, hA)"
      and sts: "sts = Walker a q c # sb"
      by (auto split: prod.splits)
    note ih = Cons.IH[OF a]
    note le = start_walk_next_addr[of h a q]
    have g: "gens hA x = gens h x" if "x \<notin> gaddr ` set sts" "x < next_addr h" for x
    proof -
      from that sts have "x \<notin> gaddr ` set sb" "x \<noteq> a" by auto
      with ih that(2) le have "gens hA x = gens (start_walk a q h) x" by auto
      with \<open>x \<noteq> a\<close> that(2) show ?thesis by (simp add: start_walk_gens)
    qed
    have m: "x \<in> set (made_gaddrs (v # b)) \<or> (x = a \<and> pending_top (v # b)) \<or> next_addr h \<le> x"
      if "x \<in> gaddr ` set sts" for x
    proof (cases "x = a")
      case True
      then show ?thesis unfolding Pending by simp
    next
      case False
      with that sts have "x \<in> gaddr ` set sb" by auto
      with ih have "x \<in> set (made_gaddrs b) \<or> x = next_addr h \<or> next_addr (start_walk a q h) \<le> x" by blast
      with le show ?thesis unfolding Pending by auto
    qed
    from ih le g m show ?thesis unfolding sts Pending by auto
  qed
qed

lemma layers_bounded_Cons:
  "layers_bounded h (v # vs) = ((\<forall>a\<in>set (layer_addrs v). a < next_addr h) \<and> layers_bounded h vs)"
  by (auto simp: layers_bounded_def)

lemma layers_bounded_mono: "layers_bounded h vs \<Longrightarrow> next_addr h \<le> next_addr h2 \<Longrightarrow> layers_bounded h2 vs"
  by (fastforce simp: layers_bounded_def)

lemma layers_bounded_rgaddr: "layers_bounded h vs \<Longrightarrow> a \<in> set (made_gaddrs vs) \<Longrightarrow> a < next_addr h"
proof (induction vs)
  case Nil
  then show ?case by simp
next
  case (Cons v vs)
  show ?case
  proof (cases v)
    case (Made st)
    with Cons show ?thesis by (cases st) (auto simp: layers_bounded_Cons)
  next
    case (Pending q c)
    with Cons show ?thesis by (auto simp: layers_bounded_Cons)
  qed
qed

lemma layers_ok_cong:
  "layers_ok h S b \<Longrightarrow> nodes h2 = nodes h \<Longrightarrow> lists h2 = lists h \<Longrightarrow>
   (\<forall>x\<in>set (made_gaddrs b). gens h2 x = gens h x) \<Longrightarrow> layers_ok h2 S b"
proof (induction b)
  case Nil
  then show ?case by simp
next
  case (Cons v b)
  show ?case
  proof (cases v)
    case (Made st)
    with Cons show ?thesis by (cases st) (auto simp: node_ready_def)
  next
    case (Pending q c)
    with Cons show ?thesis by (auto simp: node_ready_def)
  qed
qed

lemma covers_caddrs: "list_all2 covers sts col \<Longrightarrow> caddrs sts = caddrs (map as_stage col)"
proof (induction sts col rule: list_all2_induct)
  case Nil
  then show ?case by simp
next
  case (Cons st sts v col)
  then show ?case by (cases v; cases st) auto
qed

lemma covers_push: "list_all2 covers sts col \<Longrightarrow> push cs sts x = push cs (map as_stage col) x"
proof (induction sts col rule: list_all2_induct)
  case Nil
  then show ?case by simp
next
  case (Cons st sts v col)
  then show ?case by (cases v; cases st) auto
qed

lemma transport_Walk:
  fixes h :: "'a heap"
  assumes "gens hA g = QueryIterWalk q (GenIter s)" "gens h g = QueryIterWalk q (GenIter s)"
    and t: "\<forall>r. gnext s hA r \<longrightarrow> gnext s h r" and g: "gnext g hA r"
  shows "gnext g h r"
proof -
  from g obtain n where n: "gen_next n g hA = Some r" by (auto simp: gnext_def)
  then obtain m where m: "n = Suc m" by (cases n) auto
  from n m assms(1) obtain out h1 where s: "gen_next m s hA = Some (out, h1)"
    and r: "r = (case out of
            Yield x \<Rightarrow> (Yield x, set_gen g (QueryIterWalk q (GenIter s)) (cache_append q x h1))
          | Stop \<Rightarrow> (Stop, set_gen g Finished h1)
          | Raise e \<Rightarrow> (Raise e, set_gen g Finished h1))"
    by (auto simp: iter_next_def split: option.splits outcome.splits)
  from s have "gnext s hA (out, h1)" by (auto simp: gnext_def)
  with t have "gnext s h (out, h1)" by simp
  then have "inext (GenIter s) h (out, GenIter s, h1)" by (rule inext_Gen)
  from gnext_Walk[OF assms(2) this] r show ?thesis by simp
qed

lemma transport_GenExp:
  fixes h :: "'a heap"
  assumes a: "gens hA g = GenExp k c (GenIter s)" and b: "gens h g = GenExp k c (GenIter s)"
    and t: "\<forall>r. gnext s hA r \<longrightarrow> gnext s h r" and g: "gnext g hA r"
  shows "gnext g h r"
proof -
  from g obtain n where n: "gen_next n g hA = Some r" by (auto simp: gnext_def)
  then obtain m where m: "n = Suc m" by (cases n) auto
  from n m a obtain out h1 where s: "gen_next m s hA = Some (out, h1)"
    by (auto simp: iter_next_def split: option.splits)
  then have "gnext s hA (out, h1)" by (auto simp: gnext_def)
  with t have "gnext s h (out, h1)" by simp
  then have i: "inext (GenIter s) h (out, GenIter s, h1)" by (rule inext_Gen)
  show ?thesis
  proof (cases out)
    case (Yield x)
    show ?thesis
    proof (cases "genexp_cond k (cells h1 c) x")
      case (Inl e)
      with n m a s Yield have "r = (Raise e, set_gen g Finished h1)"
        by (simp add: iter_next_def)
      with gnext_GenExp_raise[OF b i[unfolded Yield] Inl] show ?thesis by simp
    next
      case (Inr keep)
      show ?thesis
      proof (cases keep)
        case True
        with n m a s Yield Inr have "r = (Yield x, set_gen g (GenExp k c (GenIter s)) h1)"
          by (simp add: iter_next_def)
        with gnext_GenExp_yield[OF b i[unfolded Yield]] Inr True show ?thesis by simp
      next
        case False
        with n m a s Yield Inr have "gen_next m g (set_gen g (GenExp k c (GenIter s)) h1) = Some r"
          by (simp add: iter_next_def)
        then have "gnext g (set_gen g (GenExp k c (GenIter s)) h1) r" by (auto simp: gnext_def)
        with gnext_GenExp_drop[OF b i[unfolded Yield]] Inr False show ?thesis by simp
      qed
    qed
  next
    case Stop
    with n m a s have "r = (Stop, set_gen g Finished h1)" by (simp add: iter_next_def)
    with gnext_GenExp_end[OF b i, of undefined] Stop show ?thesis by simp
  next
    case (Raise e)
    with n m a s have "r = (Raise e, set_gen g Finished h1)" by (simp add: iter_next_def)
    with gnext_GenExp_end[OF b i, of e] Raise show ?thesis by simp
  qed
qed

lemma gnext_Fresh_start:
  fixes h :: "'a heap"
  assumes "gens h g = QueryIterFresh q" "cache h q = []" "own_result (nodes h q) = reads S b"
    and "gnext g (start_walk g q h) r"
  shows "gnext g h r"
proof -
  from assms(4) obtain n where n: "gen_next n g (start_walk g q h) = Some r" by (auto simp: gnext_def)
  then obtain m where m: "n = Suc m" by (cases n) auto
  have ne: "own_result (nodes h q) \<noteq> RNone" unfolding assms(3) by (cases "(S, b)" rule: reads.cases) simp_all
  then have res: "result n h q = Some (own_result (nodes h q))" unfolding m by simp
  from ne obtain it h1 where p: "py_iter (own_result (nodes h q)) h = Inr (it, h1)"
    by (cases "own_result (nodes h q)") (auto simp: Query_iter_def new_gen_def)
  then have "start_walk g q h = set_gen g (QueryIterWalk q it) h1" by (simp add: start_walk_def)
  with n have "gen_next (Suc n) g h = Some r" using assms(1,2) res p by simp
  then show ?thesis unfolding gnext_def by blast
qed

lemma covers_nonempty: "list_all2 covers sb (v # b) \<Longrightarrow> sb \<noteq> []"
  by auto

lemma activate_pipe:
  fixes h :: "'a heap"
  shows "layers_ok h S col \<Longrightarrow> layers_bounded h col \<Longrightarrow> wf_layers col \<Longrightarrow> top_ready a h col \<Longrightarrow>
    activate a col h = (sts, hA) \<Longrightarrow>
    pipe hA S [] sts \<and> wf_stages sts \<and>
    (col \<noteq> [] \<longrightarrow> (\<forall>r. gnext (top_gen a col) hA r \<longrightarrow> gnext (top_gen a col) h r))"
proof (induction col arbitrary: a h sts hA)
  case Nil
  then show ?case by (simp add: wf_stages_def)
next
  case (Cons v b)
  show ?case
  proof (cases "\<exists>g k c. v = Made (Sieve g k c)")
    case True
    then obtain g k c where v: "v = Made (Sieve g k c)" by blast
    from Cons.prems(1) v obtain st b' where b: "b = Made st # b'"
      and gg: "gens h g = GenExp k c (GenIter (gaddr st))" and pb: "layers_ok h S b" by auto
    from Cons.prems(5) v obtain sb where a: "activate (next_addr h) b h = (sb, hA)"
      and sts: "sts = Sieve g k c # sb" by (auto split: prod.splits)
    note frb = activate_frame[OF a]
    from Cons.prems(2) v have bb: "layers_bounded h b" and gl: "g < next_addr h"
      by (simp_all add: layers_bounded_Cons)
    from Cons.prems(3) v have wb: "wf_layers b" and gn: "g \<notin> set (made_gaddrs b)" by (auto simp: wf_layers_def)
    have vh: "top_ready (next_addr h) h b" unfolding b by simp
    from Cons.IH[OF pb bb wb vh a] have p: "pipe hA S [] sb" and w: "wf_stages sb"
      and t: "\<forall>r. gnext (gaddr st) hA r \<longrightarrow> gnext (gaddr st) h r" unfolding b by auto
    from frb b have ne: "sb \<noteq> []" and hd: "gaddr (hd sb) = gaddr st" by auto
    have gnot: "g \<notin> gaddr ` set sb"
    proof
      assume "g \<in> gaddr ` set sb"
      with frb have "g \<in> set (made_gaddrs b) \<or> (g = next_addr h \<and> pending_top b) \<or> next_addr h \<le> g" by blast
      with gn gl show False by auto
    qed
    have gA: "gens hA g = GenExp k c (GenIter (gaddr st))" using frb gnot gl gg by simp
    have si: "src_iter S 0 sb = GenIter (gaddr st)" using ne hd by (cases sb) auto
    have 1: "pipe hA S [] sts" unfolding sts using p gA si by simp
    have 2: "wf_stages sts" unfolding sts using w gnot by (simp add: wf_stages_def)
    have 3: "gnext g h r" if "gnext g hA r" for r
      using transport_GenExp[OF gA gg t that] .
    from 1 2 3 show ?thesis unfolding v by simp
  next
    case False
    then obtain g q c where vv: "v = Made (Walker g q c) \<or> (v = Pending q c \<and> g = a)"
    proof (cases v)
      case (Made st)
      with False that show ?thesis by (cases st) auto
    next
      case (Pending q c)
      with that show ?thesis by auto
    qed
    from vv Cons.prems(5) obtain sb where a: "activate (next_addr h) b (start_walk g q h) = (sb, hA)"
      and sts: "sts = Walker g q c # sb" by (auto split: prod.splits)
    from vv Cons.prems(1,4) have gf: "gens h g = QueryIterFresh q" and no: "node_ready h S q c b"
      and pb: "layers_ok h S b" by auto
    from vv Cons.prems(2,4) have gl: "g < next_addr h" and bb: "layers_bounded h b"
      by (auto simp: layers_bounded_Cons)
    from vv Cons.prems(3,4) have gn: "g \<notin> set (made_gaddrs b)" and wb: "wf_layers b"
      and cn: "c \<notin> set (caddrs (map as_stage b))" by (auto simp: wf_layers_def)
    have top: "top_gen a (v # b) = g" using vv by auto
    let ?h1 = "start_walk g q h"
    note le = start_walk_next_addr[of h g q]
    note frb = activate_frame[OF a]
    have pb1: "layers_ok ?h1 S b"
    proof (rule layers_ok_cong[OF pb])
      show "\<forall>x\<in>set (made_gaddrs b). gens ?h1 x = gens h x"
      proof
        fix x assume x: "x \<in> set (made_gaddrs b)"
        with gn have "x \<noteq> g" by auto
        moreover from x have "x < next_addr h" by (rule layers_bounded_rgaddr[OF bb])
        ultimately show "gens ?h1 x = gens h x" by (rule start_walk_gens)
      qed
    qed simp_all
    have bb1: "layers_bounded ?h1 b" using bb le by (rule layers_bounded_mono)
    from no have rd: "own_result (nodes h q) = reads S b" by (simp add: node_ready_def)
    have na: "next_addr h \<notin> set (made_gaddrs b')" if "b = x # b'" for x b'
      using layers_bounded_rgaddr[OF bb, of "next_addr h"] that by (cases x) auto
    from start_walk_reads(2)[OF rd gl] na have vh: "top_ready (next_addr h) ?h1 b" by blast
    from Cons.IH[OF pb1 bb1 wb vh a] have p: "pipe hA S [] sb" and w: "wf_stages sb"
      and t: "b \<noteq> [] \<longrightarrow> (\<forall>r. gnext (top_gen (next_addr h) b) hA r \<longrightarrow> gnext (top_gen (next_addr h) b) ?h1 r)"
      by auto
    have gnot: "g \<notin> gaddr ` set sb"
    proof
      assume "g \<in> gaddr ` set sb"
      with frb have "g \<in> set (made_gaddrs b) \<or> (g = next_addr h \<and> pending_top b) \<or> next_addr ?h1 \<le> g" by blast
      with gn gl le show False by auto
    qed
    from start_walk_reads(1)[OF rd gl] a
    have g1: "gens ?h1 g = QueryIterWalk q (src_iter S 0 sb)" by simp
    have gA: "gens hA g = QueryIterWalk q (src_iter S 0 sb)"
      using frb gnot gl le g1 by simp
    have cs: "caddrs sb = caddrs (map as_stage b)" using frb by (simp add: covers_caddrs)
    from no have c: "cached_result (nodes h q) = c" "lists h c = []" by (simp_all add: node_ready_def)
    have 1: "pipe hA S [] sts" unfolding sts using p gA c frb by simp
    have 2: "wf_stages sts" unfolding sts using w gnot cn cs by (simp add: wf_stages_def)
    have ch: "cache h q = []" using c by (simp add: cache_def)
    have 3: "gnext g h r" if r: "gnext g hA r" for r
    proof (cases b)
      case Nil
      with a have "hA = ?h1" by simp
      with r gnext_Fresh_start[OF gf ch rd] show ?thesis by simp
    next
      case (Cons x b')
      with frb have ne: "sb \<noteq> []" and hd: "gaddr (hd sb) = top_gen (next_addr h) b" by auto
      then have si: "src_iter S 0 sb = GenIter (top_gen (next_addr h) b)" by (cases sb) auto
      from t Cons have t': "\<forall>r. gnext (top_gen (next_addr h) b) hA r \<longrightarrow> gnext (top_gen (next_addr h) b) ?h1 r"
        by simp
      from transport_Walk[OF gA[unfolded si] g1[unfolded si] t' r] have "gnext g ?h1 r" .
      with gnext_Fresh_start[OF gf ch rd] show ?thesis by simp
    qed
    from 1 2 3 show ?thesis unfolding top by simp
  qed
qed

lemma drained_first:
  fixes h :: "'a heap"
  assumes t: "\<forall>r. gnext g hA r \<longrightarrow> gnext g h r" and d: "drained g acc hA res"
  shows "drained g acc h res"
proof -
  from d obtain n where n: "drain n g acc hA = Some res" by (auto simp: drained_def)
  then obtain m where m: "n = Suc m" by (cases n) auto
  from n m obtain out h1 where s: "gen_next m g hA = Some (out, h1)"
    by (cases "gen_next m g hA") auto
  then have "gnext g hA (out, h1)" by (auto simp: gnext_def)
  with t have g: "gnext g h (out, h1)" by simp
  show ?thesis
  proof (cases out)
    case (Yield x)
    with n m s have "drain m g (acc @ [x]) h1 = Some res" by simp
    then have "drained g (acc @ [x]) h1 res" by (auto simp: drained_def)
    with g Yield show ?thesis by (auto intro: drained_yield)
  next
    case Stop
    with n m s have "res = (Inr acc, h1)" by simp
    with g Stop show ?thesis by (auto intro: drained_stop)
  next
    case (Raise e)
    with n m s have "res = (Inl e, h1)" by simp
    with g Raise show ?thesis by (auto intro: drained_raise)
  qed
qed

section \<open>The layers that a chain of calls builds\<close>

lemma layers_bounded_caddr: "layers_bounded h vs \<Longrightarrow> a \<in> set (caddrs (map as_stage vs)) \<Longrightarrow> a < next_addr h"
proof (induction vs)
  case Nil
  then show ?case by simp
next
  case (Cons v vs)
  show ?case
  proof (cases v)
    case (Made st)
    with Cons show ?thesis by (cases st) (auto simp: layers_bounded_Cons)
  next
    case (Pending q c)
    with Cons show ?thesis by (auto simp: layers_bounded_Cons)
  qed
qed

lemma layers_ok_ext: "layers_ok h S vs \<Longrightarrow> layers_bounded h vs \<Longrightarrow> extends h h2 \<Longrightarrow> layers_ok h2 S vs"
proof (induction vs)
  case Nil
  then show ?case by simp
next
  case (Cons v vs)
  from Cons.prems(2) have b: "layers_bounded h vs" by (simp add: layers_bounded_Cons)
  from Cons.prems(1) have "layers_ok h S vs" by (cases v rule: layer_addrs.cases; cases "as_stage v") auto
  with Cons.IH b Cons.prems(3) have 1: "layers_ok h2 S vs" by simp
  show ?case
  proof (cases v)
    case (Made st)
    show ?thesis
    proof (cases st)
      case (Walker g q c)
      with Made Cons.prems(2) have "g < next_addr h" "q < next_addr h" "c < next_addr h"
        by (simp_all add: layers_bounded_Cons)
      with Cons.prems(3) have "gens h2 g = gens h g" "nodes h2 q = nodes h q" "lists h2 c = lists h c"
        by (simp_all add: extends_def)
      with Cons.prems(1) Made Walker 1 show ?thesis by (simp add: node_ready_def)
    next
      case (Sieve g k c)
      with Made Cons.prems(2) have "g < next_addr h" by (simp add: layers_bounded_Cons)
      with Cons.prems(3) have "gens h2 g = gens h g" by (simp add: extends_def)
      with Cons.prems(1) Made Sieve 1 show ?thesis by simp
    qed
  next
    case (Pending q c)
    with Cons.prems(2) have "q < next_addr h" "c < next_addr h"
      by (simp_all add: layers_bounded_Cons)
    with Cons.prems(3) have "nodes h2 q = nodes h q" "lists h2 c = lists h c"
      by (simp_all add: extends_def)
    with Cons.prems(1) Pending 1 show ?thesis by (simp add: node_ready_def)
  qed
qed

lemma lazy_feed_add_sieve:
  fixes h :: "'a heap"
  assumes f: "lazy_feed h S g0 vs" and c: "cell < next_addr h"
    and h3: "h3 = (set_cell cell v h)\<lparr>gens := (gens h)(next_addr h := GenExp k cell (GenIter g0)),
                                      next_addr := Suc (next_addr h)\<rparr>"
  shows "lazy_feed h3 S (next_addr h) (Made (Sieve (next_addr h) k cell) # vs)"
proof -
  let ?g = "next_addr h"
  from f obtain st b where vs: "vs = Made st # b" and hd: "gaddr st = g0" and p: "layers_ok h S vs"
    and wf: "wf_layers vs" and b: "layers_bounded h vs" by (auto simp: lazy_feed_def)
  have ext: "extends h h3" unfolding h3 by (auto simp: extends_def)
  from p b ext have p3: "layers_ok h3 S vs" by (rule layers_ok_ext)
  have g3: "gens h3 ?g = GenExp k cell (GenIter g0)" unfolding h3 by simp
  have gn: "?g \<notin> set (made_gaddrs vs)" using layers_bounded_rgaddr[OF b] by auto
  have wf3: "wf_layers (Made (Sieve ?g k cell) # vs)" using wf gn by (auto simp: wf_layers_def)
  have "next_addr h3 = Suc ?g" unfolding h3 by simp
  then have b3: "layers_bounded h3 (Made (Sieve ?g k cell) # vs)"
    using layers_bounded_mono[OF b, of h3] c by (simp add: layers_bounded_Cons)
  show ?thesis unfolding lazy_feed_def using p3 g3 wf3 b3 vs hd by simp
qed

lemma wrap_loop_gen:
  fixes h :: "'a heap"
  shows "lazy_feed h S g0 vs \<Longrightarrow> cell < next_addr h \<Longrightarrow>
    wrap_loop k cell as (RGen g0) h = (res', h') \<Longrightarrow>
    \<exists>gs g'. length gs = length as \<and> res' = RGen g' \<and>
      lazy_feed h' S g' (map (\<lambda>g. Made (Sieve g k cell)) gs @ vs) \<and>
      extends h h' \<and> nodes h' = nodes h \<and> lists h' = lists h \<and>
      (\<forall>a. a \<noteq> cell \<longrightarrow> cells h' a = cells h a) \<and>
      (as \<noteq> [] \<longrightarrow> cells h' cell = Some (last as))"
proof (induction as arbitrary: h g0 vs)
  case Nil
  then show ?case by (intro exI[of _ "[]"] exI[of _ g0]) (simp add: extends_refl)
next
  case (Cons v as)
  let ?g = "next_addr h"
  let ?h3 = "(set_cell cell v h)\<lparr>gens := (gens h)(?g := GenExp k cell (GenIter g0)),
                                 next_addr := Suc ?g\<rparr>"
  from Cons.prems(3) have w: "wrap_loop k cell as (RGen ?g) ?h3 = (res', h')"
    by (simp add: new_gen_def)
  from lazy_feed_add_sieve[OF Cons.prems(1,2) refl]
  have f3: "lazy_feed ?h3 S ?g (Made (Sieve ?g k cell) # vs)" .
  have c3: "cell < next_addr ?h3" using Cons.prems(2) by simp
  from Cons.IH[OF f3 c3 w] obtain gs g' where
    l: "length gs = length as" and r: "res' = RGen g'"
    and f: "lazy_feed h' S g' (map (\<lambda>g. Made (Sieve g k cell)) gs @ Made (Sieve ?g k cell) # vs)"
    and e: "extends ?h3 h'" and n: "nodes h' = nodes ?h3" and li: "lists h' = lists ?h3"
    and ce: "\<forall>a. a \<noteq> cell \<longrightarrow> cells h' a = cells ?h3 a"
    and cl: "as \<noteq> [] \<longrightarrow> cells h' cell = Some (last as)" by blast
  have "extends h ?h3" by (auto simp: extends_def)
  then have e': "extends h h'" using e by (rule extends_trans)
  have cv: "cells h' cell = Some (last (v # as))"
  proof (cases "as = []")
    case True
    with w have "h' = ?h3" by simp
    with True show ?thesis by simp
  next
    case False
    with cl show ?thesis by simp
  qed
  show ?case
    by (intro exI[of _ "gs @ [?g]"] exI[of _ g'])
       (use l r f e' n li ce cv in simp)
qed

lemma lazy_view_iter:
  fixes h :: "'a heap"
  assumes v: "lazy_view h S q vs"
    and h1: "h1 = h\<lparr>gens := (gens h)(next_addr h := QueryIterFresh q), next_addr := Suc (next_addr h)\<rparr>"
  shows "lazy_feed h1 S (next_addr h) (Made (Walker (next_addr h) q (cached_result (nodes h q))) # vs)"
proof -
  let ?w = "next_addr h"
  let ?c = "cached_result (nodes h q)"
  from v have p: "layers_ok h S (Pending q ?c # vs)" and wf: "wf_layers (Pending q ?c # vs)"
    and b: "layers_bounded h (Pending q ?c # vs)" by (auto simp: lazy_view_def)
  have ext: "extends h h1" unfolding h1 by (auto simp: extends_def)
  from p b ext have p1: "layers_ok h1 S (Pending q ?c # vs)" by (rule layers_ok_ext)
  have g1: "gens h1 ?w = QueryIterFresh q" unfolding h1 by simp
  from b have bv: "layers_bounded h vs" by (simp add: layers_bounded_Cons)
  have wn: "?w \<notin> set (made_gaddrs vs)" using layers_bounded_rgaddr[OF bv] by auto
  have wf1: "wf_layers (Made (Walker ?w q ?c) # vs)" using wf wn by (auto simp: wf_layers_def)
  have "next_addr h1 = Suc ?w" unfolding h1 by simp
  then have b1: "layers_bounded h1 (Made (Walker ?w q ?c) # vs)"
    using layers_bounded_mono[OF b, of h1] by (simp add: layers_bounded_Cons)
  show ?thesis unfolding lazy_feed_def using p1 g1 wf1 b1 by simp
qed

lemma wrap_loop_query:
  fixes h :: "'a heap"
  assumes v: "lazy_view h S q vs" and c: "cell < next_addr h"
    and w: "wrap_loop k cell (v # as) (RQuery q) h = (res', h')"
  shows "\<exists>gs w g'. length gs = Suc (length as) \<and> res' = RGen g' \<and>
      lazy_feed h' S g' (map (\<lambda>g. Made (Sieve g k cell)) gs @ Made (Walker w q (cached_result (nodes h q))) # vs) \<and>
      extends h h' \<and> nodes h' = nodes h \<and> lists h' = lists h \<and>
      (\<forall>a. a \<noteq> cell \<longrightarrow> cells h' a = cells h a) \<and>
      cells h' cell = Some (last (v # as))"
proof -
  let ?w = "next_addr h"
  let ?h1 = "h\<lparr>gens := (gens h)(?w := QueryIterFresh q), next_addr := Suc ?w\<rparr>"
  from lazy_view_iter[OF v refl]
  have f1: "lazy_feed ?h1 S ?w (Made (Walker ?w q (cached_result (nodes h q))) # vs)" .
  have c1: "cell < next_addr ?h1" using c by simp
  from w have w1: "wrap_loop k cell (v # as) (RGen ?w) ?h1 = (res', h')"
    unfolding wrap_loop_query_unfold .
  from wrap_loop_gen[OF f1 c1 w1] obtain gs g' where
    l: "length gs = length (v # as)" and r: "res' = RGen g'"
    and f: "lazy_feed h' S g' (map (\<lambda>g. Made (Sieve g k cell)) gs @ Made (Walker ?w q (cached_result (nodes h q))) # vs)"
    and e: "extends ?h1 h'" and n: "nodes h' = nodes ?h1" and li: "lists h' = lists ?h1"
    and ce: "\<forall>a. a \<noteq> cell \<longrightarrow> cells h' a = cells ?h1 a"
    and cl: "cells h' cell = Some (last (v # as))" by blast
  have "extends h ?h1" by (auto simp: extends_def)
  then have e': "extends h h'" using e by (rule extends_trans)
  show ?thesis
    by (intro exI[of _ gs] exI[of _ ?w] exI[of _ g'])
       (use l r f e' n li ce cl in simp)
qed

lemma two_loops_view:
  fixes h :: "'a heap"
  assumes v: "lazy_view h S q vs" and c: "cell < next_addr h" and ne: "args \<noteq> [] \<or> kws \<noteq> []"
    and w1: "wrap_loop k1 cell args (RQuery q) h = (r1, h1)"
    and w2: "wrap_loop Call cell kws r1 h1 = (res', h')"
  shows "\<exists>gs1 gs2 w g'. length gs1 = length args \<and> length gs2 = length kws \<and> res' = RGen g' \<and>
      lazy_feed h' S g' (map (\<lambda>g. Made (Sieve g Call cell)) gs2 @ map (\<lambda>g. Made (Sieve g k1 cell)) gs1 @
                        Made (Walker w q (cached_result (nodes h q))) # vs) \<and>
      extends h h' \<and> nodes h' = nodes h \<and> lists h' = lists h \<and>
      (\<forall>a. a \<noteq> cell \<longrightarrow> cells h' a = cells h a) \<and>
      cells h' cell = Some (last (args @ kws))"
proof (cases args)
  case Nil
  with ne obtain kv kvs where kws: "kws = kv # kvs" by (cases kws) auto
  from w1 Nil have "r1 = RQuery q" "h1 = h" by simp_all
  with w2 kws have "wrap_loop Call cell (kv # kvs) (RQuery q) h = (res', h')" by simp
  from wrap_loop_query[OF v c this] obtain gs w g' where
    "length gs = Suc (length kvs)" "res' = RGen g'"
    "lazy_feed h' S g' (map (\<lambda>g. Made (Sieve g Call cell)) gs @ Made (Walker w q (cached_result (nodes h q))) # vs)"
    "extends h h'" "nodes h' = nodes h" "lists h' = lists h"
    "\<forall>a. a \<noteq> cell \<longrightarrow> cells h' a = cells h a"
    "cells h' cell = Some (last (kv # kvs))" by blast
  then show ?thesis unfolding Nil kws
    by (intro exI[of _ "[]"] exI[of _ gs] exI[of _ w] exI[of _ g']) simp
next
  case (Cons a as)
  from w1 Cons have "wrap_loop k1 cell (a # as) (RQuery q) h = (r1, h1)" by simp
  from wrap_loop_query[OF v c this] obtain gs1 w g1 where
    l1: "length gs1 = Suc (length as)" and r1: "r1 = RGen g1"
    and f1: "lazy_feed h1 S g1 (map (\<lambda>g. Made (Sieve g k1 cell)) gs1 @ Made (Walker w q (cached_result (nodes h q))) # vs)"
    and e1: "extends h h1" and n1: "nodes h1 = nodes h" and li1: "lists h1 = lists h"
    and ce1: "\<forall>a. a \<noteq> cell \<longrightarrow> cells h1 a = cells h a"
    and cl1: "cells h1 cell = Some (last (a # as))" by blast
  have c1: "cell < next_addr h1" using c e1 by (simp add: extends_def)
  from w2 r1 have "wrap_loop Call cell kws (RGen g1) h1 = (res', h')" by simp
  from wrap_loop_gen[OF f1 c1 this] obtain gs2 g' where
    l2: "length gs2 = length kws" and r: "res' = RGen g'"
    and f: "lazy_feed h' S g' (map (\<lambda>g. Made (Sieve g Call cell)) gs2 @
              map (\<lambda>g. Made (Sieve g k1 cell)) gs1 @ Made (Walker w q (cached_result (nodes h q))) # vs)"
    and e: "extends h1 h'" and n: "nodes h' = nodes h1" and li: "lists h' = lists h1"
    and ce: "\<forall>a. a \<noteq> cell \<longrightarrow> cells h' a = cells h1 a"
    and cl: "kws \<noteq> [] \<longrightarrow> cells h' cell = Some (last kws)" by blast
  have e': "extends h h'" using e1 e by (rule extends_trans)
  have cv: "cells h' cell = Some (last (args @ kws))"
  proof (cases "kws = []")
    case True
    with \<open>wrap_loop Call cell kws (RGen g1) h1 = (res', h')\<close> have "h' = h1" by simp
    with True cl1 Cons show ?thesis by simp
  next
    case False
    with cl show ?thesis by simp
  qed
  show ?thesis
    by (intro exI[of _ gs1] exI[of _ gs2] exI[of _ w] exI[of _ g'])
       (use l1 l2 r f e' n n1 li li1 ce ce1 cv Cons in simp)
qed

lemma as_stage_sieves [simp]: "as_stage \<circ> (\<lambda>g. Made (Sieve g k cell)) = (\<lambda>g. Sieve g k cell)"
  by (simp add: fun_eq_iff)

lemma layers_bounded_naddr: "layers_bounded h vs \<Longrightarrow> a \<in> set (naddrs (map as_stage vs)) \<Longrightarrow> a < next_addr h"
proof (induction vs)
  case Nil
  then show ?case by simp
next
  case (Cons v vs)
  show ?case
  proof (cases v)
    case (Made st)
    with Cons show ?thesis by (cases st) (auto simp: layers_bounded_Cons)
  next
    case (Pending q c)
    with Cons show ?thesis by (auto simp: layers_bounded_Cons)
  qed
qed

lemma layers_ok_nodes_cong:
  "layers_ok h S vs \<Longrightarrow> gens h2 = gens h \<Longrightarrow> lists h2 = lists h \<Longrightarrow>
   (\<forall>q\<in>set (naddrs (map as_stage vs)). nodes h2 q = nodes h q) \<Longrightarrow> layers_ok h2 S vs"
proof (induction vs)
  case Nil
  then show ?case by simp
next
  case (Cons v vs)
  show ?case
  proof (cases v)
    case (Made st)
    with Cons show ?thesis by (cases st) (auto simp: node_ready_def)
  next
    case (Pending q c)
    with Cons show ?thesis by (auto simp: node_ready_def)
  qed
qed

lemma lazy_view_ext:
  assumes v: "lazy_view h S q vs" and e: "extends h h2"
  shows "lazy_view h2 S q vs"
proof -
  let ?c = "cached_result (nodes h q)"
  from v have p: "layers_ok h S (Pending q ?c # vs)" and wf: "wf_layers (Pending q ?c # vs)"
    and b: "layers_bounded h (Pending q ?c # vs)" and a: "acts_ok (actions (nodes h q))"
    by (auto simp: lazy_view_def)
  from b have q: "q < next_addr h" by (simp add: layers_bounded_Cons)
  with e have n: "nodes h2 q = nodes h q" by (simp add: extends_def)
  from e have le: "next_addr h \<le> next_addr h2" by (simp add: extends_def)
  show ?thesis unfolding lazy_view_def n
    using layers_ok_ext[OF p b e] wf layers_bounded_mono[OF b le] a by simp
qed

lemma lazy_view_facts:
  assumes "lazy_view h S q vs"
  shows "q < next_addr h" "cached_result (nodes h q) < next_addr h" "layers_bounded h vs" "wf_layers vs"
    "cached_result (nodes h q) \<notin> set (caddrs (map as_stage vs))" "layers_ok h S vs"
    "lists h (cached_result (nodes h q)) = []" "own_result (nodes h q) = reads S vs"
    "acts_ok (actions (nodes h q))"
  using assms by (auto simp: lazy_view_def layers_bounded_Cons wf_layers_def node_ready_def)

lemma transform_view:
  fixes h :: "'a heap"
  assumes v: "lazy_view h S q vs" and c: "cell < next_addr h"
    and w1: "wrap_loop k1 cell args (RQuery q) h = (r1, h1)"
    and w2: "wrap_loop Call cell kws r1 h1 = (res, h2)"
  shows "\<exists>gs1 gs2 W. length gs1 = length args \<and> length gs2 = length kws \<and>
      (W = Pending q (cached_result (nodes h q)) \<or> (\<exists>w. W = Made (Walker w q (cached_result (nodes h q))))) \<and>
      layers_ok h2 S (map (\<lambda>g. Made (Sieve g Call cell)) gs2 @ map (\<lambda>g. Made (Sieve g k1 cell)) gs1 @ W # vs) \<and>
      wf_layers (map (\<lambda>g. Made (Sieve g Call cell)) gs2 @ map (\<lambda>g. Made (Sieve g k1 cell)) gs1 @ W # vs) \<and>
      layers_bounded h2 (map (\<lambda>g. Made (Sieve g Call cell)) gs2 @ map (\<lambda>g. Made (Sieve g k1 cell)) gs1 @ W # vs) \<and>
      res = reads S (map (\<lambda>g. Made (Sieve g Call cell)) gs2 @ map (\<lambda>g. Made (Sieve g k1 cell)) gs1 @ W # vs) \<and>
      extends h h2 \<and> nodes h2 = nodes h \<and> lists h2 = lists h \<and>
      (\<forall>a. a \<noteq> cell \<longrightarrow> cells h2 a = cells h a) \<and>
      (args @ kws \<noteq> [] \<longrightarrow> cells h2 cell = Some (last (args @ kws)))"
proof (cases "args = [] \<and> kws = []")
  case True
  with w1 w2 have e: "res = RQuery q" "h2 = h" by simp_all
  let ?c = "cached_result (nodes h q)"
  from v have "layers_ok h S (Pending q ?c # vs)" "wf_layers (Pending q ?c # vs)" "layers_bounded h (Pending q ?c # vs)"
    by (simp_all add: lazy_view_def)
  then show ?thesis unfolding e using True
    by (intro exI[of _ "[]"] exI[of _ "Pending q ?c"]) (simp add: extends_refl)
next
  case False
  then have ne: "args \<noteq> [] \<or> kws \<noteq> []" by simp
  from two_loops_view[OF v c ne w1 w2] obtain gs1 gs2 w g' where
    l: "length gs1 = length args" "length gs2 = length kws" and r: "res = RGen g'"
    and f: "lazy_feed h2 S g' (map (\<lambda>g. Made (Sieve g Call cell)) gs2 @ map (\<lambda>g. Made (Sieve g k1 cell)) gs1 @
                        Made (Walker w q (cached_result (nodes h q))) # vs)"
    and rest: "extends h h2" "nodes h2 = nodes h" "lists h2 = lists h"
      "\<forall>a. a \<noteq> cell \<longrightarrow> cells h2 a = cells h a"
      "cells h2 cell = Some (last (args @ kws))" by blast
  let ?col = "map (\<lambda>g. Made (Sieve g Call cell)) gs2 @ map (\<lambda>g. Made (Sieve g k1 cell)) gs1 @
                        Made (Walker w q (cached_result (nodes h q))) # vs"
  from f obtain st b where col: "?col = Made st # b" and g: "gaddr st = g'"
    and p: "layers_ok h2 S ?col" "wf_layers ?col" "layers_bounded h2 ?col" by (auto simp: lazy_feed_def)
  have rd: "res = reads S ?col" unfolding col r using g by simp
  show ?thesis
    by (intro exI[of _ gs1] exI[of _ gs2] exI[of _ "Made (Walker w q (cached_result (nodes h q)))"])
       (use l p rd rest in simp)
qed

lemma as_stage_walks:
  assumes "W = Pending q c \<or> (\<exists>w. W = Made (Walker w q c))"
  shows "caddrs (as_stage W # sts) = c # caddrs sts" "naddrs (as_stage W # sts) = q # naddrs sts"
    "push cs (as_stage W # sts) x = push cs sts x" "walks W q"
  using assms by (auto simp: walks_def)

lemma queryable_view:
  fixes h :: "'a heap"
  assumes v: "lazy_view h S q vs" and qa: "queryable tr q args kwargs h = Inr (q', h')"
  shows "\<exists>new W. lazy_view h' S q' (new @ W # vs) \<and> walks W q \<and>
      (\<forall>x. push (cells h') (map as_stage (new @ W # vs)) x =
            and_then (push (cells h') (map as_stage vs) x) (op_test (tr, args, kwargs) x)) \<and>
      extends h h' \<and> (\<forall>a<next_addr h. cells h' a = cells h a)"
proof -
  let ?n = "next_addr h"
  let ?c0 = "cached_result (nodes h q)"
  let ?acts = "actions (nodes h q)"
  let ?hq = "h\<lparr>lists := (lists h)(?n := []),
        nodes := (nodes h)(Suc ?n :=
                   \<lparr>own_result = RNone, cached_result = ?n, parent = Some q, actions = ?acts\<rparr>),
        next_addr := Suc (Suc ?n)\<rparr>"
  let ?cell = "Suc (Suc ?n)"
  let ?h0 = "?hq\<lparr>cells := (cells ?hq)(?cell := None), next_addr := Suc ?cell\<rparr>"
  from qa obtain res h2 where q': "q' = Suc ?n"
    and tf: "transform_fn tr (RQuery q) args kwargs ?hq = Inr (res, h2)"
    and h': "h' = set_result q' res h2"
    by (auto simp: queryable_def Query_new_eq split: sum.splits)
  from transform_fn_loops[OF tf] obtain r1 h1 where
    w1: "wrap_loop (first_kind tr) ?cell args (RQuery q) ?h0 = (r1, h1)"
    and w2: "wrap_loop Call ?cell (map snd kwargs) r1 h1 = (res, h2)" by auto
  have e0: "extends h ?h0" by (auto simp: extends_def)
  from v e0 have v0: "lazy_view ?h0 S q vs" by (rule lazy_view_ext)
  have c0: "?cell < next_addr ?h0" by simp
  note vf = lazy_view_facts[OF v]
  have nq: "nodes ?h0 q = nodes h q" using vf(1) by simp
  from transform_view[OF v0 c0 w1 w2] obtain gs1 gs2 W where
    l1: "length gs1 = length args" and l2: "length gs2 = length kwargs"
    and wk: "W = Pending q ?c0 \<or> (\<exists>w. W = Made (Walker w q ?c0))"
    and p2: "layers_ok h2 S (map (\<lambda>g. Made (Sieve g Call ?cell)) gs2 @
               map (\<lambda>g. Made (Sieve g (first_kind tr) ?cell)) gs1 @ W # vs)"
    and wf: "wf_layers (map (\<lambda>g. Made (Sieve g Call ?cell)) gs2 @
               map (\<lambda>g. Made (Sieve g (first_kind tr) ?cell)) gs1 @ W # vs)"
    and b2: "layers_bounded h2 (map (\<lambda>g. Made (Sieve g Call ?cell)) gs2 @
               map (\<lambda>g. Made (Sieve g (first_kind tr) ?cell)) gs1 @ W # vs)"
    and rd: "res = reads S (map (\<lambda>g. Made (Sieve g Call ?cell)) gs2 @
               map (\<lambda>g. Made (Sieve g (first_kind tr) ?cell)) gs1 @ W # vs)"
    and e: "extends ?h0 h2" and n: "nodes h2 = nodes ?h0" and li: "lists h2 = lists ?h0"
    and ce: "\<forall>a. a \<noteq> ?cell \<longrightarrow> cells h2 a = cells ?h0 a"
    and cl: "args @ map snd kwargs \<noteq> [] \<longrightarrow> cells h2 ?cell = Some (last (args @ map snd kwargs))"
    unfolding nq by auto
  let ?new = "map (\<lambda>g. Made (Sieve g Call ?cell)) gs2 @ map (\<lambda>g. Made (Sieve g (first_kind tr) ?cell)) gs1"
  let ?full = "?new @ W # vs"
  note ew = as_stage_walks[OF wk]
  have na: "naddrs (map as_stage ?full) = q # naddrs (map as_stage vs)" using ew by simp
  have ca: "caddrs (map as_stage ?full) = ?c0 # caddrs (map as_stage vs)" using ew by simp
  have nlt: "\<forall>a\<in>set (naddrs (map as_stage ?full)). a < ?n"
    unfolding na using vf(1) layers_bounded_naddr[OF vf(3)] by auto
  have clt': "\<forall>a\<in>set (caddrs (map as_stage ?full)). a < ?n"
    unfolding ca using vf(2) layers_bounded_caddr[OF vf(3)] by auto
  have gh: "gens h' = gens h2" "lists h' = lists h2" "cells h' = cells h2" "next_addr h' = next_addr h2"
    unfolding h' by (simp_all add: set_result_def)
  have nh: "nodes h' = (nodes h2)(q' := (nodes h2 q')\<lparr>own_result := res\<rparr>)"
    unfolding h' by (simp add: set_result_def)
  have nn: "\<forall>a\<in>set (naddrs (map as_stage ?full)). nodes h' a = nodes h2 a"
    unfolding nh q' using nlt by auto
  have p2': "layers_ok h2 S ?full" using p2 by simp
  have p': "layers_ok h' S ?full" using p2' gh(1) gh(2) nn by (rule layers_ok_nodes_cong)
  have b': "layers_bounded h' ?full" using b2 gh(4) by (simp add: layers_bounded_def)
  from e have le: "Suc ?cell \<le> next_addr h2" by (simp add: extends_def)
  have nq': "nodes h' q' = \<lparr>own_result = res, cached_result = ?n, parent = Some q, actions = ?acts\<rparr>"
    unfolding nh n q' by simp
  have lq: "lists h' ?n = []" unfolding gh li by simp
  have no: "node_ready h' S q' ?n ?full" unfolding node_ready_def nq' using lq rd by simp
  have wf': "wf_layers (Pending q' ?n # ?full)"
    using wf clt' unfolding wf_layers_def by (auto simp del: map_append)
  have bq: "layers_bounded h' (Pending q' ?n # ?full)"
    unfolding layers_bounded_Cons using b' le gh(4) q' by simp
  have vw: "lazy_view h' S q' ?full"
    unfolding lazy_view_def nq' using no p' wf' bq vf(9) by simp
  have bv: "cells h' ?cell = bound_value args kwargs \<or> (args = [] \<and> kwargs = [])"
    unfolding gh bound_value_def using cl by auto
  have ps: "push (cells h') (map as_stage ?full) x =
      and_then (push (cells h') (map as_stage vs) x) (op_test (tr, args, kwargs) x)" for x
  proof (cases "args = [] \<and> kwargs = []")
    case True
    with l1 l2 ew show ?thesis by (simp add: op_test_def)
  next
    case False
    with bv have bv': "cells h' ?cell = bound_value args kwargs" by simp
    have "push (cells h') (map as_stage ?full) x =
        push (cells h') (map (\<lambda>g. Sieve g Call ?cell) gs2 @
          map (\<lambda>g. Sieve g (first_kind tr) ?cell) gs1 @ as_stage W # map as_stage vs) x" by simp
    also have "\<dots> = and_then (push (cells h') (map as_stage vs) x) (op_test (tr, args, kwargs) x)"
      unfolding push_sieves op_test_def
      by (simp add: ew(3) and_then_assoc conds_test_append l1 l2 bv' del: push.simps)
    finally show ?thesis .
  qed
  from e0 e have "extends h h2" by (rule extends_trans)
  then have ext: "extends h h'"
    unfolding extends_def gh nh q' by auto
  have cells: "\<forall>a<?n. cells h' a = cells h a"
    unfolding gh using ce by auto
  show ?thesis
    by (intro exI[of _ ?new] exI[of _ W]) (use vw ps ext cells ew in simp)
qed

lemma push_cells_cong:
  "layers_bounded h b \<Longrightarrow> (\<forall>a<next_addr h. cs2 a = cells h a) \<Longrightarrow>
   push cs2 (map as_stage b) x = push (cells h) (map as_stage b) x"
proof (induction b)
  case Nil
  then show ?case by simp
next
  case (Cons v b)
  show ?case
  proof (cases v)
    case (Made st)
    with Cons show ?thesis
      by (cases st) (auto simp: layers_bounded_Cons split: sum.splits bool.splits)
  next
    case (Pending q c)
    with Cons show ?thesis by (auto simp: layers_bounded_Cons)
  qed
qed

lemma layers_bounded_suffix: "layers_bounded h (a @ v # b) \<Longrightarrow> layers_bounded h b"
  by (auto simp: layers_bounded_def)

lemma lazy_tracked_ext:
  assumes t: "lazy_tracked h vs q0 T0" and b: "layers_bounded h vs"
    and c: "\<forall>a<next_addr h. cells h1 a = cells h a"
  shows "lazy_tracked h1 (new @ vs) q0 T0"
proof -
  from t obtain a W b0 where vs: "vs = a @ W # b0" and w: "walks W q0"
    and p: "\<forall>x. push (cells h) (map as_stage b0) x = T0 x" by (auto simp: lazy_tracked_def)
  from b vs have "layers_bounded h b0" by (auto dest: layers_bounded_suffix)
  from push_cells_cong[OF this c] p have "\<forall>x. push (cells h1) (map as_stage b0) x = T0 x" by simp
  moreover have "new @ vs = (new @ a) @ W # b0" using vs by simp
  ultimately show ?thesis unfolding lazy_tracked_def using w by blast
qed

lemma chain_view:
  fixes h :: "'a heap"
  shows "lazy_view h S q vs \<Longrightarrow> (\<forall>x. push (cells h) (map as_stage vs) x = T x) \<Longrightarrow>
    chain q ops h = Inr (qs, h') \<Longrightarrow>
    \<exists>vs'. lazy_view h' S (last (q # qs)) vs' \<and>
       (\<forall>x. push (cells h') (map as_stage vs') x = and_then (T x) (chain_test ops x)) \<and>
       length qs = length ops \<and>
       (\<forall>j<length ops. lazy_tracked h' vs' ((q # qs) ! j) (\<lambda>x. and_then (T x) (chain_test (take j ops) x))) \<and>
       (\<forall>q0 T0. lazy_tracked h vs q0 T0 \<longrightarrow> lazy_tracked h' vs' q0 T0) \<and>
       extends h h' \<and> (\<forall>a<next_addr h. cells h' a = cells h a)"
proof (induction ops arbitrary: h q vs T qs)
  case Nil
  then show ?case by (intro exI[of _ vs]) (simp add: extends_refl)
next
  case (Cons op ops)
  obtain f args kwargs where op: "op = (f, args, kwargs)" by (cases op)
  from Cons.prems(3) op obtain q1 h1 qs1 where
    cm: "call_method q (transform_name f) args kwargs h = Inr (q1, h1)"
    and ch: "chain q1 ops h1 = Inr (qs1, h')" and qs: "qs = q1 # qs1"
    by (auto split: sum.splits)
  note vf = lazy_view_facts[OF Cons.prems(1)]
  from call_method_queryable[OF vf(9) cm] have qa: "queryable f q args kwargs h = Inr (q1, h1)" .
  from queryable_view[OF Cons.prems(1) qa] obtain new W where
    v1: "lazy_view h1 S q1 (new @ W # vs)" and wk: "walks W q"
    and p1: "\<forall>x. push (cells h1) (map as_stage (new @ W # vs)) x =
            and_then (push (cells h1) (map as_stage vs) x) (op_test (f, args, kwargs) x)"
    and e1: "extends h h1" and c1: "\<forall>a<next_addr h. cells h1 a = cells h a" by blast
  let ?full = "new @ W # vs"
  let ?T1 = "\<lambda>x. and_then (T x) (op_test op x)"
  from push_cells_cong[OF vf(3) c1] Cons.prems(2)
  have ps: "\<forall>x. push (cells h1) (map as_stage vs) x = T x" by simp
  with p1 have pT1: "\<forall>x. push (cells h1) (map as_stage ?full) x = ?T1 x" by (simp add: op)
  from Cons.IH[OF v1 pT1 ch] obtain vs' where
    v': "lazy_view h' S (last (q1 # qs1)) vs'"
    and p': "\<forall>x. push (cells h') (map as_stage vs') x = and_then (?T1 x) (chain_test ops x)"
    and len: "length qs1 = length ops"
    and tr: "\<forall>j<length ops. lazy_tracked h' vs' ((q1 # qs1) ! j)
               (\<lambda>x. and_then (?T1 x) (chain_test (take j ops) x))"
    and old: "\<forall>q0 T0. lazy_tracked h1 ?full q0 T0 \<longrightarrow> lazy_tracked h' vs' q0 T0"
    and e': "extends h1 h'" and c': "\<forall>a<next_addr h1. cells h' a = cells h1 a" by blast
  have tq: "lazy_tracked h1 ?full q T" unfolding lazy_tracked_def using ps wk by blast
  have trk: "lazy_tracked h' vs' ((q # qs) ! j) (\<lambda>x. and_then (T x) (chain_test (take j (op # ops)) x))"
    if "j < length (op # ops)" for j
  proof (cases j)
    case 0
    with old tq show ?thesis by simp
  next
    case (Suc j')
    with that have "j' < length ops" by simp
    with tr have "lazy_tracked h' vs' ((q1 # qs1) ! j')
               (\<lambda>x. and_then (?T1 x) (chain_test (take j' ops) x))" by simp
    then show ?thesis unfolding Suc qs by (simp add: and_then_assoc)
  qed
  have oldp: "lazy_tracked h' vs' q0 T0" if "lazy_tracked h vs q0 T0" for q0 T0
  proof -
    from lazy_tracked_ext[OF that vf(3) c1, of "new @ [W]"]
    have "lazy_tracked h1 ?full q0 T0" by simp
    with old show ?thesis by simp
  qed
  from e1 have le: "next_addr h \<le> next_addr h1" by (simp add: extends_def)
  have cc: "\<forall>a<next_addr h. cells h' a = cells h a" using c1 c' le by auto
  show ?case
    by (intro exI[of _ vs'])
       (use v' p' len trk oldp extends_trans[OF e1 e'] cc in \<open>simp add: qs and_then_assoc\<close>)
qed

lemma bound_root_view:
  fixes h0 :: "'a heap"
  assumes "bound_root regs S h0 = (q0, h1)"
  shows "lazy_view h1 S q0 []"
  using assms acts_ok_actions_of[of regs]
  by (auto simp: bound_root_def Query_init_def Query_new_eq Query_call_def set_result_def
      new_list_def lazy_view_def wf_layers_def layers_bounded_def node_ready_def Let_def)

lemma chain_core:
  fixes h0 :: "'a heap"
  assumes br: "bound_root regs S h0 = (q0, h1)" and ch: "chain q0 ops h1 = Inr (qs, h2)"
  shows "\<exists>vs. lazy_view h2 S (last (q0 # qs)) vs \<and>
      (\<forall>x. push (cells h2) (map as_stage vs) x = chain_test ops x) \<and>
      length qs = length ops \<and>
      (\<forall>j<length ops. lazy_tracked h2 vs ((q0 # qs) ! j) (chain_test (take j ops)))"
proof -
  from bound_root_view[OF br] have v: "lazy_view h1 S q0 []" .
  have p: "\<forall>x. push (cells h1) (map as_stage []) x = Inr True" by simp
  from chain_view[OF v p ch] obtain vs where
    "lazy_view h2 S (last (q0 # qs)) vs"
    "\<forall>x. push (cells h2) (map as_stage vs) x = chain_test ops x"
    "length qs = length ops"
    "\<forall>j<length ops. lazy_tracked h2 vs ((q0 # qs) ! j) (\<lambda>x. chain_test (take j ops) x)"
    unfolding and_then_simps by blast
  then show ?thesis by blast
qed

lemma run_cong: "(\<forall>x. push cs sts x = push cs' sts' x) \<Longrightarrow> run cs sts xs = run cs' sts' xs"
  by (induction xs) (auto split: sum.splits)

lemma flow_cong: "(\<forall>x. push cs sts x = push cs' sts' x) \<Longrightarrow> flow cs sts xs = flow cs' sts' xs"
  by (simp add: flow_def)

lemma py_list_view:
  fixes h :: "'a heap"
  assumes v: "lazy_view h S q vs"
  shows "\<exists>h' sts. (\<exists>n. py_list n q h = Some (run (cells h) (map as_stage vs) S, h')) \<and>
     (\<forall>ys. run (cells h) (map as_stage vs) S = Inr ys \<longrightarrow>
        cells h' = cells h \<and> nodes h' = nodes h \<and> next_addr h < next_addr h' \<and>
        pipe_done h' S sts \<and>
        list_all2 covers sts (Pending q (cached_result (nodes h q)) # vs))"
proof -
  let ?w = "next_addr h"
  let ?c = "cached_result (nodes h q)"
  let ?col = "Pending q ?c # vs"
  let ?h0 = "h\<lparr>gens := (gens h)(?w := QueryIterFresh q), next_addr := Suc ?w\<rparr>"
  from v have p: "layers_ok h S ?col" and wf: "wf_layers ?col" and b: "layers_bounded h ?col"
    by (simp_all add: lazy_view_def)
  have ext: "extends h ?h0" by (auto simp: extends_def)
  from p b ext have p0: "layers_ok ?h0 S ?col" by (rule layers_ok_ext)
  have b0: "layers_bounded ?h0 ?col" using b by (rule layers_bounded_mono) simp
  from b have "layers_bounded h vs" by (simp add: layers_bounded_Cons)
  then have "?w \<notin> set (made_gaddrs vs)" using layers_bounded_rgaddr[of h vs ?w] by auto
  then have vh: "top_ready ?w ?h0 ?col" by simp
  obtain sts hA where a: "activate ?w ?col ?h0 = (sts, hA)" by (cases "activate ?w ?col ?h0")
  note fr = activate_frame[OF a]
  from activate_pipe[OF p0 b0 wf vh a] have pA: "pipe hA S [] sts" and wfA: "wf_stages sts"
    and t: "\<forall>r. gnext ?w hA r \<longrightarrow> gnext ?w ?h0 r" by auto
  from fr have cov: "list_all2 covers sts ?col" and hd: "gaddr (hd sts) = ?w" by auto
  then obtain st sb where sts: "sts = st # sb" by (cases sts) auto
  with hd have g: "gaddr st = ?w" by simp
  from fr have cA: "cells hA = cells h" and nA: "nodes hA = nodes h"
    and naA: "Suc ?w \<le> next_addr hA" by auto
  have rn: "run (cells hA) sts S = run (cells h) (map as_stage vs) S"
  proof -
    have "run (cells hA) sts S = run (cells h) (map as_stage ?col) S"
      unfolding cA by (rule run_cong) (simp add: covers_push[OF cov])
    then show ?thesis by (simp add: run_Walker)
  qed
  from drain_pipe[OF wfA[unfolded sts] _ pA[unfolded sts], of S "[]"] obtain h' where
    d: "drained ?w [] hA (run (cells h) (map as_stage vs) S, h')"
    and post: "\<forall>ys. run (cells h) (map as_stage vs) S = Inr ys \<longrightarrow> frame sts hA h' \<and> pipe_done h' S sts"
    unfolding g using rn by (auto simp: sts)
  from drained_first[OF t d] have "drained ?w [] ?h0 (run (cells h) (map as_stage vs) S, h')" .
  then have "\<exists>n. py_list n q h = Some (run (cells h) (map as_stage vs) S, h')"
    by (simp add: drained_def py_list_def Query_iter_def new_gen_def)
  moreover from post cA nA naA cov have "\<forall>ys. run (cells h) (map as_stage vs) S = Inr ys \<longrightarrow>
        cells h' = cells h \<and> nodes h' = nodes h \<and> next_addr h < next_addr h' \<and>
        pipe_done h' S sts \<and> list_all2 covers sts ?col"
    by (auto simp: frame_def)
  ultimately show ?thesis by blast
qed

lemma covers_tracked:
  assumes c: "list_all2 covers sts col" and t: "lazy_tracked h col q T"
  shows "tracked h sts q T"
proof -
  from t obtain a W b where col: "col = a @ W # b" and w: "walks W q"
    and p: "\<forall>x. push (cells h) (map as_stage b) x = T x" by (auto simp: lazy_tracked_def)
  from c col obtain a' st b' where sts: "sts = a' @ st # b'" and cw: "covers st W"
    and cb: "list_all2 covers b' b"
    by (auto simp: list_all2_append2 list_all2_Cons2)
  from w cw obtain g c0 where st: "st = Walker g q c0"
    by (cases st) (auto simp: walks_def)
  from p have "\<forall>x. push (cells h) b' x = T x" by (simp add: covers_push[OF cb])
  with sts st show ?thesis unfolding tracked_def by blast
qed

section \<open>After a full iteration, and iterating again\<close>

lemma layers_done_cong:
  "layers_done N h S vs \<Longrightarrow> nodes h2 = nodes h \<Longrightarrow> lists h2 = lists h \<Longrightarrow> cells h2 = cells h \<Longrightarrow>
   (\<forall>x<N. gens h2 x = gens h x) \<Longrightarrow> layers_done N h2 S vs"
proof (induction vs)
  case Nil
  then show ?case by simp
next
  case (Cons v vs)
  then show ?case by (cases v) auto
qed

lemma pipe_done_layers:
  "list_all2 covers sts col \<Longrightarrow> pipe_done h3 S sts \<Longrightarrow> layers_ok h2 S col \<Longrightarrow> layers_bounded h2 col \<Longrightarrow>
   nodes h3 = nodes h2 \<Longrightarrow> next_addr h2 \<le> N \<Longrightarrow> layers_done N h3 S col"
proof (induction sts col rule: list_all2_induct)
  case Nil
  then show ?case by simp
next
  case (Cons st sts v col)
  from Cons.prems(1) have pd: "pipe_done h3 S sts" by simp
  from Cons.prems(2) have vp: "layers_ok h2 S col" by (cases v rule: layer_addrs.cases; cases "as_stage v") auto
  from Cons.prems(3) have vb: "layers_bounded h2 col" by (simp add: layers_bounded_Cons)
  note ih = Cons.IH[OF pd vp vb Cons.prems(4,5)]
  show ?case
  proof (cases v)
    case (Made s)
    with Cons.hyps(1) have s: "s = st" by simp
    from Cons.prems(1) have "gens h3 (gaddr st) = Finished" by (cases st) auto
    moreover from Cons.prems(3) Made s have "gaddr st < next_addr h2"
      by (cases st) (auto simp: layers_bounded_Cons)
    ultimately show ?thesis using Made s Cons.prems(5) by simp
  next
    case (Pending p c)
    with Cons.hyps(1) obtain g where st: "st = Walker g p c" by (cases st) auto
    from Cons.prems(1) st have a: "cached_result (nodes h3 p) = c"
      and b: "lists h3 c = flow (cells h3) sts S" by auto
    have "flow (cells h3) sts S = flow (cells h3) (map as_stage col) S"
      by (rule flow_cong) (simp add: covers_push[OF Cons.hyps(2)])
    moreover from Cons.prems(2) Pending have "own_result (nodes h2 p) = reads S col"
      by (simp add: node_ready_def)
    ultimately show ?thesis using Pending a b ih Cons.prems(4) by simp
  qed
qed

lemma flow_Walker [simp]: "flow cs (Walker g q c # b) xs = flow cs b xs"
  by (simp add: flow_def)

lemma rewalk_gen:
  fixes h :: "'a heap"
  shows "layers_done N h S (Pending q c # vs) \<Longrightarrow> flow (cells h) (map as_stage vs) S = [] \<Longrightarrow>
    gens h g = QueryIterFresh q \<Longrightarrow> N \<le> g \<Longrightarrow> g < next_addr h \<Longrightarrow>
    \<exists>h'. gnext g h (Stop, h')"
proof (induction vs arbitrary: q c g h)
  case Nil
  from Nil.prems(1,2) have rd: "own_result (nodes h q) = reads S []" and ch: "cache h q = []"
    and S: "S = []" by (simp_all add: cache_def flow_def)
  have st: "start_walk g q h = set_gen g (QueryIterWalk q (ListIter S 0)) h"
    using rd by (simp add: start_walk_def)
  have "inext (ListIter S 0) (start_walk g q h) (Stop, ListIter S 0, start_walk g q h)"
    using S by (simp add: inext_List_stop)
  moreover have "gens (start_walk g q h) g = QueryIterWalk q (ListIter S 0)" unfolding st by simp
  ultimately have "gnext g (start_walk g q h) (Stop, set_gen g Finished (start_walk g q h))"
    using gnext_Walk by fastforce
  from gnext_Fresh_start[OF Nil.prems(3) ch rd this] show ?case by blast
next
  case (Cons v vs)
  from Cons.prems(1,2) have ch: "cache h q = []" by (simp add: cache_def)
  show ?case
  proof (cases v)
    case (Made st)
    with Cons.prems(1) have rd: "own_result (nodes h q) = reads S (v # vs)"
      and f: "gens h (gaddr st) = Finished" and lt: "gaddr st < N" by simp_all
    let ?h1 = "set_gen g (QueryIterWalk q (GenIter (gaddr st))) h"
    have st: "start_walk g q h = ?h1" using rd Made by (simp add: start_walk_def)
    from lt Cons.prems(4) have "gaddr st \<noteq> g" by simp
    with f have "gens ?h1 (gaddr st) = Finished" by simp
    then have "gnext (gaddr st) ?h1 (Stop, ?h1)" by (rule gnext_Finished)
    then have "inext (GenIter (gaddr st)) ?h1 (Stop, GenIter (gaddr st), ?h1)" by (rule inext_Gen)
    moreover have "gens ?h1 g = QueryIterWalk q (GenIter (gaddr st))" by simp
    ultimately have "gnext g ?h1 (Stop, set_gen g Finished ?h1)"
      using gnext_Walk by fastforce
    with gnext_Fresh_start[OF Cons.prems(3) ch rd] st show ?thesis by auto
  next
    case (Pending p c')
    with Cons.prems(1) have rd: "own_result (nodes h q) = reads S (v # vs)"
      and vd: "layers_done N h S (Pending p c' # vs)" by simp_all
    let ?g' = "next_addr h"
    let ?h1 = "set_gen g (QueryIterWalk q (GenIter ?g'))
                 (h\<lparr>gens := (gens h)(?g' := QueryIterFresh p), next_addr := Suc ?g'\<rparr>)"
    have st: "start_walk g q h = ?h1" using rd Pending by (simp add: start_walk_def Query_iter_def new_gen_def)
    have vd1: "layers_done N ?h1 S (Pending p c' # vs)"
      using vd Cons.prems(4,5) by (intro layers_done_cong[OF vd]) auto
    have fl: "flow (cells ?h1) (map as_stage vs) S = []" using Cons.prems(2) Pending by simp
    have gf: "gens ?h1 ?g' = QueryIterFresh p" using Cons.prems(5) by simp
    have le: "N \<le> ?g'" using Cons.prems(4,5) by simp
    from Cons.IH[OF vd1 fl gf le] obtain h2 where s: "gnext ?g' ?h1 (Stop, h2)" by auto
    then have "inext (GenIter ?g') ?h1 (Stop, GenIter ?g', h2)" by (rule inext_Gen)
    moreover have "gens ?h1 g = QueryIterWalk q (GenIter ?g')" by simp
    ultimately have "gnext g ?h1 (Stop, set_gen g Finished h2)"
      using gnext_Walk by fastforce
    with gnext_Fresh_start[OF Cons.prems(3) ch rd] st show ?thesis by auto
  qed
qed

lemma rewalk_list:
  fixes h :: "'a heap"
  assumes vd: "layers_done (next_addr h) h S (Pending q c # vs)" and fl: "flow (cells h) (map as_stage vs) S = []"
  shows "\<exists>n h'. py_list n q h = Some (Inr [], h')"
proof -
  let ?g = "next_addr h"
  let ?h0 = "h\<lparr>gens := (gens h)(?g := QueryIterFresh q), next_addr := Suc ?g\<rparr>"
  have vd0: "layers_done ?g ?h0 S (Pending q c # vs)" by (rule layers_done_cong[OF vd]) auto
  have "\<exists>h'. gnext ?g ?h0 (Stop, h')"
    by (rule rewalk_gen[OF vd0]) (use fl in auto)
  then obtain h' where "gnext ?g ?h0 (Stop, h')" by blast
  then have "drained ?g [] ?h0 (Inr [], h')" by (rule drained_stop)
  then show ?thesis by (auto simp: drained_def py_list_def Query_iter_def new_gen_def)
qed

lemma layers_ok_append: "layers_ok h S (a @ b) \<Longrightarrow> layers_ok h S b"
proof (induction a)
  case Nil
  then show ?case by simp
next
  case (Cons v a)
  then show ?case by (cases v rule: layer_addrs.cases; cases "as_stage v") auto
qed

lemma layers_ok_tracked_empty:
  assumes "layers_ok h S vs" "lazy_tracked h vs q T"
  shows "cache h q = []"
proof -
  from assms(2) obtain a W b where vs: "vs = a @ W # b" and w: "walks W q"
    by (auto simp: lazy_tracked_def)
  from assms(1) vs have "layers_ok h S (W # b)" by (auto dest: layers_ok_append)
  with w show ?thesis by (auto simp: walks_def cache_def node_ready_def)
qed

lemma chain_list:
  fixes h0 :: "'a heap"
  assumes br: "bound_root regs S h0 = (q0, h1)" and ch: "chain q0 ops h1 = Inr (qs, h2)"
  shows "\<exists>h3.
      (\<exists>n. py_list n (last (q0 # qs)) h2 = Some (filter_run (chain_test ops) S, h3)) \<and>
      (\<forall>j\<le>length ops. cache h2 ((q0 # qs) ! j) = []) \<and>
      ((\<forall>x\<in>set S. \<forall>e. chain_test ops x \<noteq> Inl e) \<longrightarrow>
         (\<forall>j\<le>length ops. cache h3 ((q0 # qs) ! j) = filter (\<lambda>x. chain_test (take j ops) x = Inr True) S) \<and>
         (\<exists>m h4. py_list m (last (q0 # qs)) h3 = Some (Inr (cache h3 (last (q0 # qs))), h4) \<and>
                 (cache h3 (last (q0 # qs)) \<noteq> [] \<longrightarrow> h4 = replay_effect h3)))"
proof -
  let ?top = "last (q0 # qs)"
  let ?c = "cached_result (nodes h2 ?top)"
  from chain_core[OF br ch] obtain vs where v: "lazy_view h2 S ?top vs"
    and p: "\<forall>x. push (cells h2) (map as_stage vs) x = chain_test ops x"
    and len: "length qs = length ops"
    and tr: "\<forall>j<length ops. lazy_tracked h2 vs ((q0 # qs) ! j) (chain_test (take j ops))" by blast
  have "last (q0 # qs) = (q0 # qs) ! (length (q0 # qs) - 1)" by (rule last_conv_nth) simp
  then have top: "(q0 # qs) ! length ops = ?top" using len by (simp del: last.simps)
  let ?col = "Pending ?top ?c # vs"
  from py_list_view[OF v] obtain h3 sts where
    l: "\<exists>n. py_list n ?top h2 = Some (run (cells h2) (map as_stage vs) S, h3)"
    and post: "\<forall>ys. run (cells h2) (map as_stage vs) S = Inr ys \<longrightarrow>
        cells h3 = cells h2 \<and> nodes h3 = nodes h2 \<and> next_addr h2 < next_addr h3 \<and>
        pipe_done h3 S sts \<and> list_all2 covers sts ?col" by blast
  have r: "run (cells h2) (map as_stage vs) S = filter_run (chain_test ops) S"
    using p by (rule run_filter_run)
  note vf = lazy_view_facts[OF v]
  from vf have ct: "cache h2 ?top = []" by (simp add: cache_def)
  have empty: "cache h2 ((q0 # qs) ! j) = []" if "j \<le> length ops" for j
  proof (cases "j = length ops")
    case True
    with ct top show ?thesis by simp
  next
    case False
    with that tr have "lazy_tracked h2 vs ((q0 # qs) ! j) (chain_test (take j ops))" by simp
    with vf(6) show ?thesis by (rule layers_ok_tracked_empty)
  qed
  have full: "(\<forall>j\<le>length ops. cache h3 ((q0 # qs) ! j) = filter (\<lambda>x. chain_test (take j ops) x = Inr True) S) \<and>
         (\<exists>m h4. py_list m ?top h3 = Some (Inr (cache h3 ?top), h4) \<and>
                 (cache h3 ?top \<noteq> [] \<longrightarrow> h4 = replay_effect h3))"
    if ne: "\<forall>x\<in>set S. \<forall>e. chain_test ops x \<noteq> Inl e"
  proof -
    from filter_run_no_error[OF ne] r obtain ys where "run (cells h2) (map as_stage vs) S = Inr ys" by simp
    with post have c3: "cells h3 = cells h2" and n3: "nodes h3 = nodes h2"
      and na: "next_addr h2 < next_addr h3"
      and pd: "pipe_done h3 S sts" and cov: "list_all2 covers sts ?col" by auto
    have tr3: "lazy_tracked h3 ?col ((q0 # qs) ! j) (chain_test (take j ops))" if "j \<le> length ops" for j
    proof (cases "j = length ops")
      case True
      have "lazy_tracked h3 ?col ?top (chain_test ops)"
        unfolding lazy_tracked_def walks_def using p c3 by (intro exI[of _ "[]"]) auto
      with True top show ?thesis by simp
    next
      case False
      with that tr have "lazy_tracked h2 vs ((q0 # qs) ! j) (chain_test (take j ops))" by simp
      then obtain a W b where "vs = a @ W # b" "walks W ((q0 # qs) ! j)"
        "\<forall>x. push (cells h2) (map as_stage b) x = chain_test (take j ops) x" by (auto simp: lazy_tracked_def)
      then have "?col = (Pending ?top ?c # a) @ W # b" "walks W ((q0 # qs) ! j)"
        "\<forall>x. push (cells h3) (map as_stage b) x = chain_test (take j ops) x" using c3 by simp_all
      then show ?thesis unfolding lazy_tracked_def by blast
    qed
    have caches: "cache h3 ((q0 # qs) ! j) = filter (\<lambda>x. chain_test (take j ops) x = Inr True) S"
      if "j \<le> length ops" for j
      using pipe_done_tracked[OF pd covers_tracked[OF cov tr3[OF that]]] .
    from v have vp: "layers_ok h2 S ?col" and vb: "layers_bounded h2 ?col" by (simp_all add: lazy_view_def)
    from na have "next_addr h2 \<le> next_addr h3" by simp
    from pipe_done_layers[OF cov pd vp vb n3 this] have vd: "layers_done (next_addr h3) h3 S ?col" .
    have second: "\<exists>m h4. py_list m ?top h3 = Some (Inr (cache h3 ?top), h4) \<and>
                 (cache h3 ?top \<noteq> [] \<longrightarrow> h4 = replay_effect h3)"
    proof (cases "cache h3 ?top = []")
      case False
      from replay_list[OF this] show ?thesis unfolding replay_effect_def by blast
    next
      case True
      from vd have "lists h3 ?c = flow (cells h3) (map as_stage vs) S" "cached_result (nodes h3 ?top) = ?c"
        by simp_all
      with True have fl: "flow (cells h3) (map as_stage vs) S = []" by (simp add: cache_def)
      from rewalk_list[OF vd fl] True show ?thesis by auto
    qed
    from caches second show ?thesis by blast
  qed
  show ?thesis
    by (intro exI[of _ h3]) (use l r empty full in auto)
qed

section \<open>One call on a bound root\<close>

lemma filter_loop_total:
  "res \<noteq> RNone \<Longrightarrow> list_all callable vs \<Longrightarrow> filter_loop c vs res h = Inr (wrap_loop Call c vs res h)"
proof (induction vs arbitrary: res h)
  case Nil
  then show ?case by simp
next
  case (Cons v vs)
  then show ?case
    by (cases res) (auto simp: new_gen_def Query_iter_def split: prod.splits)
qed

lemma transform_fn_total:
  assumes "f = Filter \<longrightarrow> list_all callable args" "list_all callable (map snd kwargs)"
  shows "\<exists>r. transform_fn f (RQuery q) args kwargs h = Inr r"
proof -
  obtain c h0 where nc: "new_cell h = (c, h0)" by (cases "new_cell h")
  have "\<exists>r1 h1. (case f of Filter \<Rightarrow> filter_loop c args (RQuery q) h0
                      | Exclude \<Rightarrow> exclude_loop c args (RQuery q) h0) = Inr (r1, h1) \<and> r1 \<noteq> RNone"
  proof (cases f)
    case Filter
    with assms(1) filter_loop_total[of "RQuery q" args c h0]
      wrap_loop_not_None[of "RQuery q" Call c args h0]
    show ?thesis by (cases "wrap_loop Call c args (RQuery q) h0") auto
  next
    case Exclude
    with exclude_loop_wrap[of "RQuery q" c args h0]
      wrap_loop_not_None[of "RQuery q" NotEqual c args h0]
    show ?thesis by (cases "wrap_loop NotEqual c args (RQuery q) h0") auto
  qed
  then obtain r1 h1 where 1: "(case f of Filter \<Rightarrow> filter_loop c args (RQuery q) h0
                      | Exclude \<Rightarrow> exclude_loop c args (RQuery q) h0) = Inr (r1, h1)"
    and r1: "r1 \<noteq> RNone" by blast
  from filter_loop_total[OF r1 assms(2)]
  have "filter_loop c (map snd kwargs) r1 h1 = Inr (wrap_loop Call c (map snd kwargs) r1 h1)" .
  with 1 nc show ?thesis
    by (cases f) (auto simp: filter_py_def exclude_py_def)
qed

lemma call_method_total:
  assumes "actions (nodes h q) (transform_name f) = Some f"
    and "f = Filter \<longrightarrow> list_all callable args" "list_all callable (map snd kwargs)"
  shows "\<exists>q1 h1. call_method q (transform_name f) args kwargs h = Inr (q1, h1)"
proof -
  obtain query hq where qn: "Query_new (actions (nodes h q)) (Some q) h = (query, hq)"
    by (cases "Query_new (actions (nodes h q)) (Some q) h")
  from transform_fn_total[OF assms(2,3)] obtain res h2 where
    "transform_fn f (RQuery q) args kwargs hq = Inr (res, h2)" by fastforce
  with assms(1) qn show ?thesis
    by (simp add: call_method_def Query_getattr_def queryable_def)
qed

lemma registered: "f \<in> set regs \<Longrightarrow> actions_of regs (transform_name f) = Some f"
proof -
  assume "f \<in> set regs"
  then have "transform_name f \<in> fst ` set (rev (map (\<lambda>f. (transform_name f, f)) regs))"
    by force
  then obtain f' where f': "actions_of regs (transform_name f) = Some f'"
    unfolding actions_of_def by (cases "map_of (rev (map (\<lambda>f. (transform_name f, f)) regs)) (transform_name f)")
      (auto simp: map_of_eq_None_iff)
  with acts_ok_actions_of[of regs] have "transform_name f' = transform_name f"
    by (simp add: acts_ok_def)
  with f' show ?thesis by (simp add: transform_name_inj)
qed

lemma bound_root_actions:
  "bound_root regs S h0 = (q, h1) \<Longrightarrow> actions (nodes h1 q) = actions_of regs"
  by (auto simp: bound_root_def Query_init_def Query_new_eq Query_call_def set_result_def
      new_list_def Let_def)

lemma single_op_list:
  fixes h0 :: "'a heap"
  assumes br: "bound_root regs S h0 = (q, h1)" and reg: "f \<in> set regs"
    and ok: "f = Filter \<longrightarrow> list_all callable args" "list_all callable (map snd kwargs)"
  shows "\<exists>q1 h2 n h3. call_method q (transform_name f) args kwargs h1 = Inr (q1, h2) \<and>
           py_list n q1 h2 = Some (filter_run (op_test (f, args, kwargs)) S, h3)"
proof -
  from bound_root_actions[OF br] registered[OF reg]
  have "actions (nodes h1 q) (transform_name f) = Some f" by simp
  from call_method_total[OF this ok] obtain q1 h2 where
    cm: "call_method q (transform_name f) args kwargs h1 = Inr (q1, h2)" by blast
  then have ch: "chain q [(f, args, kwargs)] h1 = Inr ([q1], h2)" by simp
  from chain_list[OF br ch] obtain h3 n where
    "py_list n (last [q, q1]) h2 = Some (filter_run (chain_test [(f, args, kwargs)]) S, h3)"
    by auto
  moreover have "chain_test [(f, args, kwargs)] = op_test (f, args, kwargs)"
    by (simp add: fun_eq_iff)
  ultimately show ?thesis using cm by auto
qed

text \<open>
  C6.  On a root bound to a sequence \<open>S\<close>, with \<^verbatim>\<open>exclude\<close> registered, the call
  \<^verbatim>\<open>exclude(v)\<close> with a plain value \<open>v\<close> returns a view, and iterating the view yields the
  elements of \<open>S\<close> that are not equal to \<open>v\<close>, in their order and as often as they occur.
\<close>

theorem exclude_literal:
  fixes h0 :: "'a heap"
  assumes "bound_root regs S h0 = (q, h1)" and "Exclude \<in> set regs"
  shows "\<exists>q1 h2 n h3. call_method q ''exclude'' [Lit v] [] h1 = Inr (q1, h2) \<and>
           py_list n q1 h2 = Some (Inr (filter (\<lambda>x. x \<noteq> v) S), h3)"
proof -
  have t: "op_test (Exclude, [Lit v], []) = (\<lambda>x. Inr (x \<noteq> v))"
    by (simp add: fun_eq_iff op_test_def bound_value_def)
  have "filter_run (\<lambda>x. Inr (x \<noteq> v)) S = Inr (filter (\<lambda>x. x \<noteq> v) S)"
    using filter_run_no_error[of S "\<lambda>x. Inr (x \<noteq> v)"] by simp
  with single_op_list[OF assms(1,2), of "[Lit v]" "[]"] t show ?thesis by simp
qed


section \<open>Iterating a chain of views\<close>



text \<open>
  C3, as amended.  For the view made by a chain of calls of transforms on a bound root, with
  predicates that do not raise: a second full iteration yields the same sequence as the
  first, and when that sequence is not empty the second iteration is a replay of the cache,
  whose only effect on the store is its own finished generator.
\<close>

theorem second_iteration_repeats_first:
  fixes h0 :: "'a heap"
  assumes "bound_root regs S h0 = (q0, h1)" and "chain q0 ops h1 = Inr (qs, h2)"
    and "\<forall>x\<in>set S. \<forall>e. chain_test ops x \<noteq> Inl e"
  shows "\<exists>n h3 m h4.
           py_list n (last (q0 # qs)) h2 = Some (Inr (filter (\<lambda>x. chain_test ops x = Inr True) S), h3) \<and>
           py_list m (last (q0 # qs)) h3 = Some (Inr (filter (\<lambda>x. chain_test ops x = Inr True) S), h4) \<and>
           (filter (\<lambda>x. chain_test ops x = Inr True) S \<noteq> [] \<longrightarrow> h4 = replay_effect h3)"
proof -
  let ?top = "last (q0 # qs)"
  let ?ys = "filter (\<lambda>x. chain_test ops x = Inr True) S"
  from chain_list[OF assms(1,2)] assms(3) obtain h3 n m h4 where
    l: "py_list n ?top h2 = Some (filter_run (chain_test ops) S, h3)"
    and c: "\<forall>j\<le>length ops. cache h3 ((q0 # qs) ! j) = filter (\<lambda>x. chain_test (take j ops) x = Inr True) S"
    and s: "py_list m ?top h3 = Some (Inr (cache h3 ?top), h4)"
    and r: "cache h3 ?top \<noteq> [] \<longrightarrow> h4 = replay_effect h3"
    by blast
  from chain_core[OF assms(1,2)] have len: "length qs = length ops" by blast
  have "last (q0 # qs) = (q0 # qs) ! (length (q0 # qs) - 1)" by (rule last_conv_nth) simp
  then have top: "(q0 # qs) ! length ops = ?top" using len by (simp del: last.simps)
  from c top have ct: "cache h3 ?top = ?ys" by (auto simp del: last.simps)
  from filter_run_no_error[OF assms(3)] l
  have l': "py_list n ?top h2 = Some (Inr ?ys, h3)" by simp
  from l' s r show ?thesis unfolding ct by blast
qed

text \<open>
  C4, as amended.  A node whose cache is not empty, complete or not, is iterated by
  replaying that cache: the iteration yields the cached elements and nothing else, its only
  effect on the store is its own finished generator, and the cache stays as it was.
\<close>

theorem partial_cache_is_replayed:
  fixes h :: "'a heap"
  assumes "cache h q \<noteq> []"
  shows "\<exists>n. py_list n q h = Some (Inr (cache h q), replay_effect h) \<and>
             cache (replay_effect h) q = cache h q"
  using replay_list[OF assms] by (auto simp: replay_effect_def cache_def)




section \<open>Runs of the model\<close>

lemmas eval_defs =
  Q_bound_def run_query_def ints_def value_gt_def value_lt_def listed_def heap_after_def
  partial_pass_def empty_filter_view_def replay_effect_def
  bound_root_def Query_init_def Query_new_def new_list_def empty_heap_def Query_call_def
  set_result_def call_method_def Query_getattr_def actions_of_def queryable_def filter_py_def
  exclude_py_def new_cell_def set_cell_def new_gen_def Query_iter_def py_list_def Let_def
  set_gen_def iter_next_def cache_def cache_append_def
  Value_gt_def Value_lt_def Value_eq_def value_placeholder_def py_eq_def

text \<open>
  C1.  The claim: a view made by \<^verbatim>\<open>filter(p1, ..., pn)\<close> yields the elements that satisfy
  every predicate.  The code stacks one generator expression per predicate, but each
  expression reads the variable \<^verbatim>\<open>value\<close> when it runs, and by then it holds the last
  argument.  \<^verbatim>\<open>Q([1, 2, 3, 4, 5]).filter(value > 2, value < 4)\<close> yields the elements below 4,
  \<open>[1, 2, 3]\<close>; the elements that satisfy both predicates are \<open>[3]\<close>.
\<close>

theorem filter_two_predicates:
  "run_query 40 (ints [1, 2, 3, 4, 5]) [(Filter, [value_gt 2, value_lt 4], [])] =
     Some (Inr (ints [1, 2, 3]))"
  by (simp add: eval_defs eval_nat_numeral)

text \<open>
  C5.  The claim: \<^verbatim>\<open>Q(S).filter(p1).filter(p2)\<close> and \<^verbatim>\<open>Q(S).filter(p1, p2)\<close> yield the same
  elements.  On \<open>[1, 2, 3, 4, 5]\<close> with \<^verbatim>\<open>value > 2\<close> and \<^verbatim>\<open>value < 4\<close> the chained calls
  yield \<open>[3]\<close>, and the single call, whose two generator expressions both evaluate the
  second predicate, yields \<open>[1, 2, 3]\<close>.
\<close>

theorem chained_filters_differ_from_one_call:
  "run_query 40 (ints [1, 2, 3, 4, 5]) [(Filter, [value_gt 2], []), (Filter, [value_lt 4], [])] =
     Some (Inr (ints [3])) \<and>
   run_query 40 (ints [1, 2, 3, 4, 5]) [(Filter, [value_gt 2, value_lt 4], [])] =
     Some (Inr (ints [1, 2, 3]))"
  by (simp add: eval_defs eval_nat_numeral)

text \<open>
  C7.  The claim: in \<^verbatim>\<open>exclude\<close> a named predicate that returns true keeps the element,
  and a positional callable behaves as a predicate of \<^verbatim>\<open>filter\<close>.  The loop over the
  positional arguments of \<^verbatim>\<open>exclude\<close> compares every argument with the element by
  \<^verbatim>\<open>!=\<close> and never calls it.  On \<open>[1, 2, 3, 4, 5]\<close>, \<^verbatim>\<open>exclude(value > 2)\<close> keeps every
  element, where \<^verbatim>\<open>filter(value > 2)\<close> keeps \<open>[3, 4, 5]\<close>; the named predicate of
  \<^verbatim>\<open>exclude(keep=value > 2)\<close> is called and keeps \<open>[3, 4, 5]\<close>.  With several
  arguments every generator expression of the call tests the last one, as in
  \<^verbatim>\<open>filter\<close>: on \<open>[1, 2, 3]\<close>, \<^verbatim>\<open>exclude(3, keep=value > 1)\<close> keeps \<open>[2, 3]\<close>.
\<close>

theorem exclude_positional_callable:
  "run_query 40 (ints [1, 2, 3, 4, 5]) [(Exclude, [value_gt 2], [])] =
     Some (Inr (ints [1, 2, 3, 4, 5])) \<and>
   run_query 40 (ints [1, 2, 3, 4, 5]) [(Filter, [value_gt 2], [])] =
     Some (Inr (ints [3, 4, 5])) \<and>
   run_query 40 (ints [1, 2, 3, 4, 5]) [(Exclude, [], [(''keep'', value_gt 2)])] =
     Some (Inr (ints [3, 4, 5])) \<and>
   run_query 40 (ints [1, 2, 3]) [(Exclude, [Lit (PInt 3)], [(''keep'', value_gt 1)])] =
     Some (Inr (ints [2, 3]))"
  by (simp add: eval_defs eval_nat_numeral)

text \<open>
  C2, the claim as stated fails for the names that the normal lookup finds on a
  \<^verbatim>\<open>Value\<close>: \<^verbatim>\<open>value._getattr\<close> is the stored accessor, here \<^verbatim>\<open>None\<close>, and
  \<^verbatim>\<open>value.prop._check_attr\<close> is a bound method; neither is a new \<^verbatim>\<open>Value\<close>.
\<close>

theorem value_getattr_is_not_a_value:
  "attr_chain py_getattr [''_getattr''] = Some (Inr (EStored None)) \<and>
   attr_chain py_getattr [''prop'', ''_check_attr''] = Some (Inr EMethod)"
  by (simp add: attr_chain_def value_placeholder_def Value_attr_def Value_methods_def special_def)



text \<open>
  C4, the claim as stated fails: after \<^verbatim>\<open>it = iter(Q([1, 2, 3])); next(it)\<close>, which yields 1, a
  new iteration yields \<open>[1]\<close>, the cached prefix, and the cache is still \<open>[1]\<close>; the bound
  sequence is not walked again.
\<close>

theorem partial_iteration_then_list:
  "fst (partial_pass 3 (fst (Q_bound (ints [1, 2, 3]))) (snd (Q_bound (ints [1, 2, 3])))) = Yield (PInt 1) \<and>
   listed 5 (fst (Q_bound (ints [1, 2, 3]))) ex_partial = Some (Inr [PInt 1]) \<and>
   cache (heap_after 5 (fst (Q_bound (ints [1, 2, 3]))) ex_partial) (fst (Q_bound (ints [1, 2, 3]))) = [PInt 1]"
  by (simp add: ex_partial_def eval_defs eval_nat_numeral)

lemma replayed_next_addr: "replayed n q h \<Longrightarrow> next_addr (heap_after n q h) = Suc (next_addr h)"
  by (simp add: replayed_def replay_effect_def)

text \<open>
  C3, the claim as stated fails when the first iteration yields nothing: an empty cache
  is the same as no cache.  For \<^verbatim>\<open>Q([]).filter()\<close> both iterations yield the empty sequence,
  and the second one is not a replay: it makes a new generator over the parent node, which
  walks the bound sequence again.
\<close>

theorem empty_result_is_walked_again:
  "listed 5 (fst empty_filter_view) (snd empty_filter_view) = Some (Inr []) \<and>
   listed 5 (fst empty_filter_view) (heap_after 5 (fst empty_filter_view) (snd empty_filter_view)) =
     Some (Inr []) \<and>
   \<not> replayed 5 (fst empty_filter_view) (heap_after 5 (fst empty_filter_view) (snd empty_filter_view))"
proof -
  let ?q = "fst empty_filter_view"
  let ?h = "snd empty_filter_view"
  have a: "listed 5 ?q ?h = Some (Inr [])"
    by (simp add: eval_defs eval_nat_numeral)
  have b: "listed 5 ?q (heap_after 5 ?q ?h) = Some (Inr [])"
    by (simp add: eval_defs eval_nat_numeral)
  have c: "next_addr (heap_after 5 ?q (heap_after 5 ?q ?h)) = Suc (Suc (next_addr (heap_after 5 ?q ?h)))"
    by (simp add: eval_defs eval_nat_numeral)
  from c have "\<not> replayed 5 ?q (heap_after 5 ?q ?h)"
    by (auto dest: replayed_next_addr)
  with a b show ?thesis by simp
qed

section \<open>The theorems at concrete inputs\<close>

lemma ex_chain_ok: "ex_chain = Inr (ex_nodes, ex_heap)"
proof -
  have "\<not> isl ex_chain"
    by (simp add: ex_chain_def ex_ops_def eval_defs)
  then show ?thesis by (simp add: ex_nodes_def ex_heap_def)
qed

lemma ex_ops_tests:
  "chain_test ex_ops (PInt 1) = Inr False"
  "chain_test ex_ops (PInt 2) = Inr True"
  "chain_test ex_ops (PInt 3) = Inr False"
  "chain_test (take (Suc 0) ex_ops) (PInt 1) = Inr False"
  "chain_test (take (Suc 0) ex_ops) (PInt 2) = Inr True"
  "chain_test (take (Suc 0) ex_ops) (PInt 3) = Inr True"
  "chain_test (take 2 ex_ops) (PInt 1) = Inr False"
  "chain_test (take 2 ex_ops) (PInt 2) = Inr True"
  "chain_test (take 2 ex_ops) (PInt 3) = Inr True"
  "take 3 ex_ops = ex_ops"
  by (simp_all add: ex_ops_def op_test_def bound_value_def value_gt_def Value_gt_def
      value_placeholder_def)

lemma ex_ops_ok: "\<forall>x\<in>set (ints [1, 2, 3]). \<forall>e. chain_test ex_ops x \<noteq> Inl e"
  by (simp add: ex_ops_tests ints_def)

text \<open>
  C6 at \<^verbatim>\<open>Q([4, 5, 4]).exclude(5)\<close>: the view yields \<open>[4, 4]\<close>.
\<close>

theorem exclude_literal_witness:
  "Exclude \<in> set [Filter, Exclude] \<and>
   (\<exists>q1 h2 n h3.
      call_method (fst (Q_bound (ints [4, 5, 4]))) ''exclude'' [Lit (PInt 5)] []
        (snd (Q_bound (ints [4, 5, 4]))) = Inr (q1, h2) \<and>
      py_list n q1 h2 = Some (Inr (ints [4, 4]), h3))"
  using exclude_literal[of "[Filter, Exclude]" "ints [4, 5, 4]" empty_heap
      "fst (Q_bound (ints [4, 5, 4]))" "snd (Q_bound (ints [4, 5, 4]))" "PInt 5"]
  by (simp add: Q_bound_def ints_def)

text \<open>
  C2 at \<^verbatim>\<open>value.prop.prop\<close>, compared with 2 on an object whose \<^verbatim>\<open>prop.prop\<close> is 5, and
  at one more access, \<^verbatim>\<open>value.prop.prop.size\<close>.
\<close>

theorem deep_chain_witness:
  "plain ''prop'' \<and> plain ''size'' \<and>
   (\<exists>v. attr_chain py_getattr [''prop'', ''prop''] = Some (Inr (EValue v)) \<and>
      Value_gt py_gt v (PInt 2) (PObj 1 [(''prop'', PObj 2 [(''prop'', PInt 5)])]) = Inr True \<and>
      Value_lt py_lt v (PInt 2) (PObj 1 [(''prop'', PObj 2 [(''prop'', PInt 5)])]) = Inr False \<and>
      Value_eq py_eq v (PInt 2) (PObj 1 [(''prop'', PObj 2 [(''prop'', PInt 5)])]) = Inr False \<and>
      attr_step py_getattr (EValue v) ''size'' =
        Some (Inr (EValue (Value (Some (resolve_path py_getattr [''prop'', ''prop'', ''size'']))))))"
  using deep_chain_predicate[where names = "[''prop'', ''prop'']" and name = "''size''"
      and ga = py_getattr and op_gt = py_gt and op_lt = py_lt and op_eq = py_eq
      and c = "PInt 2" and x = "PObj 1 [(''prop'', PObj 2 [(''prop'', PInt 5)])]"]
  by (simp add: plain_def special_def Value_methods_def py_eq_def)



text \<open>
  C3 at \<^verbatim>\<open>Q([1, 2, 3]).filter(value > 1).filter().exclude(3)\<close>: both iterations yield
  \<open>[2]\<close>, the second by replay.
\<close>

theorem second_iteration_witness:
  "ex_chain = Inr (ex_nodes, ex_heap) \<and>
   (\<exists>n h3 m h4.
      py_list n (last (fst (Q_bound (ints [1, 2, 3])) # ex_nodes)) ex_heap = Some (Inr [PInt 2], h3) \<and>
      py_list m (last (fst (Q_bound (ints [1, 2, 3])) # ex_nodes)) h3 = Some (Inr [PInt 2], h4) \<and>
      h4 = replay_effect h3)"
proof -
  let ?q0 = "fst (Q_bound (ints [1, 2, 3]))"
  have 1: "bound_root [Filter, Exclude] (ints [1, 2, 3]) empty_heap = (?q0, snd (Q_bound (ints [1, 2, 3])))"
    by (simp add: Q_bound_def)
  have 2: "chain ?q0 ex_ops (snd (Q_bound (ints [1, 2, 3]))) = Inr (ex_nodes, ex_heap)"
    using ex_chain_ok by (simp add: ex_chain_def)
  have f: "filter (\<lambda>x. chain_test ex_ops x = Inr True) (ints [1, 2, 3]) = [PInt 2]"
    by (simp add: ints_def ex_ops_tests)
  from second_iteration_repeats_first[OF 1 2 ex_ops_ok] ex_chain_ok show ?thesis
    unfolding f by blast
qed

text \<open>
  C4 at the store left by the partial iteration of \<^verbatim>\<open>Q([1, 2, 3])\<close>, where the cache is
  \<open>[1]\<close>.
\<close>

theorem partial_cache_witness:
  "cache ex_partial (fst (Q_bound (ints [1, 2, 3]))) = [PInt 1] \<and>
   (\<exists>n. py_list n (fst (Q_bound (ints [1, 2, 3]))) ex_partial = Some (Inr [PInt 1], replay_effect ex_partial) \<and>
        cache (replay_effect ex_partial) (fst (Q_bound (ints [1, 2, 3]))) = [PInt 1])"
proof -
  let ?q = "fst (Q_bound (ints [1, 2, 3]))"
  have c: "cache ex_partial ?q = [PInt 1]"
    by (simp add: ex_partial_def eval_defs eval_nat_numeral)
  then have "cache ex_partial ?q \<noteq> []" by simp
  from partial_cache_is_replayed[OF this] c show ?thesis by simp
qed



end
